theory Spec2Isabelle
  imports Main "HOL-Library.Sublist"
begin

section \<open>Data model of the disk scheduling engine (algorithms.js)\<close>

text \<open>
  Requests, head positions and seek totals are JavaScript numbers that only ever hold
  integers here (sums and absolute differences of parsed integers), so they are \<open>int\<close>.
  A JavaScript \<open>Set\<close> iterates in insertion order and holds no value twice: it is a list
  without repetition, in insertion order. Algorithm and direction tokens are strings.
\<close>

type_synonym js_set = "int list"

definition set_has :: "int \<Rightarrow> js_set \<Rightarrow> bool" where
  "set_has x s = (x \<in> set s)"

definition set_add :: "int \<Rightarrow> js_set \<Rightarrow> js_set" where
  "set_add x s = (if x \<in> set s then s else s @ [x])"

definition set_delete :: "int \<Rightarrow> js_set \<Rightarrow> js_set" where
  "set_delete x s = removeAll x s"

text \<open>\<open>new Set(iterable)\<close>: the values are added one after the other.\<close>

definition new_Set :: "int list \<Rightarrow> js_set" where
  "new_Set xs = fold set_add xs []"

text \<open>One entry of \<open>window.history\<close>, as \<open>addHistoryStep\<close> builds it.\<close>

record step =
  head :: int
  seek :: int
  served :: js_set
  servedOrder :: "int list"

text \<open>The globals on \<open>window\<close> that algorithms.js reads and writes.\<close>

record window =
  DISK_MAX :: int
  history :: "step list"
  currentStateIndex :: nat
  originalRequestSet :: js_set

text \<open>The local variables of one \<open>calculate...Path\<close> call, with the globals they update.\<close>

record walk =
  currentHead :: int
  totalSeek :: int
  servedSet :: js_set
  servedSeq :: "int list"
  win :: window

section \<open>Part 1: the history generator\<close>

definition addHistoryStep :: "int \<Rightarrow> int \<Rightarrow> js_set \<Rightarrow> int list \<Rightarrow> window \<Rightarrow> window" where
  "addHistoryStep h sk sv so w =
     w\<lparr>history := history w @ [\<lparr>head = h, seek = sk, served = sv, servedOrder = so\<rparr>]\<rparr>"

text \<open>The declarations that open every \<open>calculate...Path\<close>.\<close>

definition startWalk :: "int \<Rightarrow> window \<Rightarrow> walk" where
  "startWalk startHead w =
     \<lparr>currentHead = startHead, totalSeek = 0, servedSet = [], servedSeq = [], win = w\<rparr>"

text \<open>The body of the FCFS loop.\<close>

definition fcfsVisit :: "int \<Rightarrow> walk \<Rightarrow> walk" where
  "fcfsVisit req s =
     (let ts = totalSeek s + \<bar>req - currentHead s\<bar>;
          sv = (if set_has req (originalRequestSet (win s)) then set_add req (servedSet s)
                else servedSet s);
          so = (if set_has req (originalRequestSet (win s)) then servedSeq s @ [req]
                else servedSeq s)
      in \<lparr>currentHead = req, totalSeek = ts, servedSet = sv, servedSeq = so,
          win = addHistoryStep req ts sv so (win s)\<rparr>)"

definition calculateFcfsPath :: "int list \<Rightarrow> int \<Rightarrow> window \<Rightarrow> window" where
  "calculateFcfsPath requests startHead w = win (fold fcfsVisit requests (startWalk startHead w))"

text \<open>
  The five statements that serve one request: charge the distance, move the head, mark the
  request served and append a step. The loops of SCAN, C-SCAN, LOOK and C-LOOK have this
  body.
\<close>

definition serve :: "int \<Rightarrow> walk \<Rightarrow> walk" where
  "serve req s =
     (let ts = totalSeek s + \<bar>req - currentHead s\<bar>;
          sv = set_add req (servedSet s);
          so = servedSeq s @ [req]
      in \<lparr>currentHead = req, totalSeek = ts, servedSet = sv, servedSeq = so,
          win = addHistoryStep req ts sv so (win s)\<rparr>)"

text \<open>The loop body that starts with \<open>if (req === startHead) continue;\<close>.\<close>

definition serveUnless :: "int \<Rightarrow> int \<Rightarrow> walk \<Rightarrow> walk" where
  "serveUnless startHead req s = (if req = startHead then s else serve req s)"

text \<open>A request at the start position: served where the head stands, at no cost.\<close>

definition serveAtStart :: "int \<Rightarrow> walk \<Rightarrow> walk" where
  "serveAtStart startHead s =
     (let sv = set_add startHead (servedSet s);
          so = servedSeq s @ [startHead]
      in s\<lparr>servedSet := sv, servedSeq := so,
            win := addHistoryStep (currentHead s) (totalSeek s) sv so (win s)\<rparr>)"

text \<open>
  The inner \<open>for\<close> loop of SSTF over the remaining set. \<open>shortestDist\<close> starts at
  \<open>Infinity\<close>, which is \<open>None\<close> here: every distance is below it.
\<close>

fun nearestScan :: "int \<Rightarrow> int list \<Rightarrow> int option \<times> int \<Rightarrow> int option \<times> int" where
  "nearestScan cur [] acc = acc"
| "nearestScan cur (req # rest) (shortestDist, nextReq) =
     (let dist = \<bar>req - cur\<bar> in
      if (case shortestDist of None \<Rightarrow> True | Some d \<Rightarrow> dist < d)
      then nearestScan cur rest (Some dist, req)
      else nearestScan cur rest (shortestDist, nextReq))"

text \<open>
  \<open>totalSeek += shortestDist\<close>. The loop guard \<open>remaining.size > 0\<close> makes the scan see at
  least one request, so \<open>shortestDist\<close> is finite there; the other branch is never taken.
\<close>

definition addDist :: "int \<Rightarrow> int option \<Rightarrow> int" where
  "addDist t shortestDist = (case shortestDist of Some d \<Rightarrow> t + d | None \<Rightarrow> t)"

function sstfPathLoop :: "js_set \<Rightarrow> walk \<Rightarrow> walk" where
  "sstfPathLoop remaining s =
     (if length remaining > 0 then
        (let found = nearestScan (currentHead s) remaining (None, - 1);
             ts = addDist (totalSeek s) (fst found);
             ch = snd found;
             sv = set_add ch (servedSet s);
             so = servedSeq s @ [ch]
         in sstfPathLoop (set_delete ch remaining)
              \<lparr>currentHead = ch, totalSeek = ts, servedSet = sv, servedSeq = so,
               win = addHistoryStep ch ts sv so (win s)\<rparr>)
      else s)"
  by pat_completeness auto
termination
proof (relation "measure (\<lambda>(remaining, s). length remaining)")
  show "wf (measure (\<lambda>(remaining, s). length remaining))"
    by simp
next
  fix remaining :: js_set and s :: walk and found ts ch sv so
  assume nonempty: "0 < length remaining"
    and found: "found = nearestScan (currentHead s) remaining (None, - 1)"
    and ch: "ch = snd found"
  have pick: "snd (nearestScan c xs (d, n)) \<in> set xs \<or> (snd (nearestScan c xs (d, n)) = n \<and> d \<noteq> None)"
    if "d = None \<longrightarrow> xs \<noteq> []" for c xs d n
    using that
  proof (induction xs arbitrary: d n)
    case Nil
    then show ?case by simp
  next
    case (Cons x xs)
    show ?case
    proof (cases "case d of None \<Rightarrow> True | Some e \<Rightarrow> \<bar>x - c\<bar> < e")
      case True
      then have "nearestScan c (x # xs) (d, n) = nearestScan c xs (Some \<bar>x - c\<bar>, x)"
        by simp
      moreover have "snd (nearestScan c xs (Some \<bar>x - c\<bar>, x)) \<in> set xs
          \<or> (snd (nearestScan c xs (Some \<bar>x - c\<bar>, x)) = x \<and> Some \<bar>x - c\<bar> \<noteq> None)"
        by (rule Cons.IH) simp
      ultimately show ?thesis by auto
    next
      case False
      then have notNone: "d \<noteq> None" by (cases d) simp_all
      from False have "nearestScan c (x # xs) (d, n) = nearestScan c xs (d, n)"
        by simp
      moreover have "snd (nearestScan c xs (d, n)) \<in> set xs
          \<or> (snd (nearestScan c xs (d, n)) = n \<and> d \<noteq> None)"
        by (rule Cons.IH) (simp add: notNone)
      ultimately show ?thesis using notNone by auto
    qed
  qed
  from nonempty have "remaining \<noteq> []" by auto
  then have "snd (nearestScan (currentHead s) remaining (None, - 1)) \<in> set remaining"
    using pick [of None remaining "currentHead s" "- 1"] by simp
  with found ch have "ch \<in> set remaining" by simp
  then have "length (removeAll ch remaining) < length remaining"
    by (simp add: length_removeAll_less)
  then show "((set_delete ch remaining,
               \<lparr>currentHead = ch, totalSeek = ts, servedSet = sv, servedSeq = so,
                win = addHistoryStep ch ts sv so (win s)\<rparr>), remaining, s)
             \<in> measure (\<lambda>(remaining, s). length remaining)"
    by (simp add: set_delete_def)
qed

definition calculateSstfPath :: "int list \<Rightarrow> int \<Rightarrow> window \<Rightarrow> window" where
  "calculateSstfPath requests startHead w =
     (let s0 = startWalk startHead w;
          remaining = new_Set requests
      in win (if set_has startHead remaining
              then sstfPathLoop (set_delete startHead remaining) (serveAtStart startHead s0)
              else sstfPathLoop remaining s0))"

text \<open>The sweep of SCAN and C-SCAN to a disk boundary: a step that serves nothing.\<close>

definition sweepTo :: "int \<Rightarrow> walk \<Rightarrow> walk" where
  "sweepTo boundary s =
     (let ts = totalSeek s + \<bar>boundary - currentHead s\<bar>
      in s\<lparr>currentHead := boundary, totalSeek := ts,
            win := addHistoryStep boundary ts (servedSet s) (servedSeq s) (win s)\<rparr>)"

text \<open>The wrap-around of C-SCAN: \<open>window.DISK_MAX\<close> is charged, whatever the head was.\<close>

definition jumpTo :: "int \<Rightarrow> walk \<Rightarrow> walk" where
  "jumpTo target s =
     (let ts = totalSeek s + DISK_MAX (win s)
      in s\<lparr>currentHead := target, totalSeek := ts,
            win := addHistoryStep target ts (servedSet s) (servedSeq s) (win s)\<rparr>)"

definition calculateScanPath :: "int list \<Rightarrow> int \<Rightarrow> string \<Rightarrow> window \<Rightarrow> window" where
  "calculateScanPath requests startHead direction w =
     (let s0 = startWalk startHead w;
          sortedRequests = sort (new_Set requests);
          leftRequests = rev (filter (\<lambda>r. r < startHead) sortedRequests);
          rightRequests = filter (\<lambda>r. r \<ge> startHead) sortedRequests;
          s1 = (if startHead \<in> set sortedRequests then serveAtStart startHead s0 else s0)
      in win (if direction = ''right'' then
                (let s2 = fold (serveUnless startHead) rightRequests s1;
                     s3 = (if currentHead s2 \<noteq> DISK_MAX (win s2)
                           then sweepTo (DISK_MAX (win s2)) s2 else s2)
                 in fold serve leftRequests s3)
              else
                (let s2 = fold serve leftRequests s1;
                     s3 = (if currentHead s2 \<noteq> 0 then sweepTo 0 s2 else s2)
                 in fold (serveUnless startHead) rightRequests s3)))"

definition calculateCScanPath :: "int list \<Rightarrow> int \<Rightarrow> string \<Rightarrow> window \<Rightarrow> window" where
  "calculateCScanPath requests startHead direction w =
     (let s0 = startWalk startHead w;
          sortedRequests = sort (new_Set requests);
          leftRequests = filter (\<lambda>r. r < startHead) sortedRequests;
          rightRequests = filter (\<lambda>r. r \<ge> startHead) sortedRequests;
          s1 = (if startHead \<in> set sortedRequests then serveAtStart startHead s0 else s0)
      in win (if direction = ''right'' then
                (let s2 = fold (serveUnless startHead) rightRequests s1;
                     s3 = (if currentHead s2 \<noteq> DISK_MAX (win s2)
                           then sweepTo (DISK_MAX (win s2)) s2 else s2);
                     s4 = jumpTo 0 s3
                 in fold serve leftRequests s4)
              else
                (let s2 = fold serve (rev leftRequests) s1;
                     s3 = (if currentHead s2 \<noteq> 0 then sweepTo 0 s2 else s2);
                     s4 = jumpTo (DISK_MAX (win s3)) s3
                 in fold (serveUnless startHead) (rev rightRequests) s4)))"

definition calculateLookPath :: "int list \<Rightarrow> int \<Rightarrow> string \<Rightarrow> window \<Rightarrow> window" where
  "calculateLookPath requests startHead direction w =
     (let s0 = startWalk startHead w;
          sortedRequests = sort (new_Set requests);
          leftRequests = rev (filter (\<lambda>r. r < startHead) sortedRequests);
          rightRequests = filter (\<lambda>r. r \<ge> startHead) sortedRequests;
          s1 = (if startHead \<in> set sortedRequests then serveAtStart startHead s0 else s0)
      in win (if direction = ''right'' then
                fold serve leftRequests (fold (serveUnless startHead) rightRequests s1)
              else
                fold (serveUnless startHead) rightRequests (fold serve leftRequests s1)))"

text \<open>
  The jump of C-LOOK, leftwards start, to the last request on the right: the distance is
  charged and the head moved in the local variables, but when that request is the start
  position itself nothing is marked and no step is appended.
\<close>

definition jumpToLast :: "int \<Rightarrow> int \<Rightarrow> walk \<Rightarrow> walk" where
  "jumpToLast startHead lastReq s =
     (let ts = totalSeek s + \<bar>lastReq - currentHead s\<bar>
      in if lastReq \<noteq> startHead then
           (let sv = set_add lastReq (servedSet s);
                so = servedSeq s @ [lastReq]
            in \<lparr>currentHead = lastReq, totalSeek = ts, servedSet = sv, servedSeq = so,
                win = addHistoryStep lastReq ts sv so (win s)\<rparr>)
         else s\<lparr>currentHead := lastReq, totalSeek := ts\<rparr>)"

text \<open>
  The two index loops of C-LOOK run over \<open>leftRequests[1..]\<close> upwards, that is
  \<open>tl leftRequests\<close>, and over \<open>rightRequests[..length - 2]\<close> downwards, that is
  \<open>rev (butlast rightRequests)\<close>.
\<close>

definition calculateCLookPath :: "int list \<Rightarrow> int \<Rightarrow> string \<Rightarrow> window \<Rightarrow> window" where
  "calculateCLookPath requests startHead direction w =
     (let s0 = startWalk startHead w;
          sortedRequests = sort (new_Set requests);
          leftRequests = filter (\<lambda>r. r < startHead) sortedRequests;
          rightRequests = filter (\<lambda>r. r \<ge> startHead) sortedRequests;
          s1 = (if startHead \<in> set sortedRequests then serveAtStart startHead s0 else s0)
      in win (if direction = ''right'' then
                (let s2 = fold (serveUnless startHead) rightRequests s1
                 in case leftRequests of
                      [] \<Rightarrow> s2
                    | firstReq # others \<Rightarrow> fold serve others (serve firstReq s2))
              else
                (let s2 = fold serve (rev leftRequests) s1
                 in if length rightRequests > 0 then
                      fold (serveUnless startHead) (rev (butlast rightRequests))
                        (jumpToLast startHead (last rightRequests) s2)
                    else s2)))"

text \<open>
  The dispatcher. It returns \<open>true\<close>; its result is the new state of the globals. An
  algorithm token outside the six cases of the \<open>switch\<close> runs no walk.
\<close>

definition calculateSimulationHistory ::
  "string \<Rightarrow> int list \<Rightarrow> int \<Rightarrow> string \<Rightarrow> window \<Rightarrow> bool \<times> window" where
  "calculateSimulationHistory algorithm requests startHead direction w =
     (let w1 = w\<lparr>history := [], currentStateIndex := 0\<rparr>;
          w2 = w1\<lparr>originalRequestSet :=
                    (if algorithm = ''fcfs'' then new_Set requests
                     else new_Set (sort (new_Set requests)))\<rparr>;
          w3 = addHistoryStep startHead 0 [] [] w2;
          w4 = (if algorithm = ''fcfs'' then calculateFcfsPath requests startHead w3
                else if algorithm = ''sstf'' then calculateSstfPath requests startHead w3
                else if algorithm = ''scan'' then calculateScanPath requests startHead direction w3
                else if algorithm = ''c-scan'' then calculateCScanPath requests startHead direction w3
                else if algorithm = ''look'' then calculateLookPath requests startHead direction w3
                else if algorithm = ''c-look'' then calculateCLookPath requests startHead direction w3
                else w3);
          w5 = (if length (history w4) > 0
                then w4\<lparr>history := history w4 @ [last (history w4)]\<rparr> else w4)
      in (True, w5))"

text \<open>The run a call leaves in \<open>window.history\<close>.\<close>

definition simulationRun :: "string \<Rightarrow> int list \<Rightarrow> int \<Rightarrow> string \<Rightarrow> window \<Rightarrow> step list" where
  "simulationRun algorithm requests startHead direction w =
     history (snd (calculateSimulationHistory algorithm requests startHead direction w))"

section \<open>Part 2: the stats calculator\<close>

text \<open>The FCFS case: the pair is \<open>(totalSeek, headCopy)\<close>.\<close>

definition statsFcfs :: "int list \<Rightarrow> int \<Rightarrow> int" where
  "statsFcfs reqCopy headCopy =
     fst (fold (\<lambda>req (t, h). (t + \<bar>req - h\<bar>, req)) reqCopy (0, headCopy))"

function statsSstfLoop :: "js_set \<Rightarrow> int \<Rightarrow> int \<Rightarrow> int" where
  "statsSstfLoop remaining headCopy t =
     (if length remaining > 0 then
        (let found = nearestScan headCopy remaining (None, - 1)
         in statsSstfLoop (set_delete (snd found) remaining) (snd found) (addDist t (fst found)))
      else t)"
  by pat_completeness auto
termination
proof (relation "measure (\<lambda>(remaining, h, t). length remaining)")
  show "wf (measure (\<lambda>(remaining, h, t). length remaining))"
    by simp
next
  fix remaining :: js_set and headCopy t :: int and found
  assume nonempty: "0 < length remaining"
    and found: "found = nearestScan headCopy remaining (None, - 1)"
  have pick: "snd (nearestScan c xs (d, n)) \<in> set xs \<or> (snd (nearestScan c xs (d, n)) = n \<and> d \<noteq> None)"
    if "d = None \<longrightarrow> xs \<noteq> []" for c xs d n
    using that
  proof (induction xs arbitrary: d n)
    case Nil
    then show ?case by simp
  next
    case (Cons x xs)
    show ?case
    proof (cases "case d of None \<Rightarrow> True | Some e \<Rightarrow> \<bar>x - c\<bar> < e")
      case True
      then have "nearestScan c (x # xs) (d, n) = nearestScan c xs (Some \<bar>x - c\<bar>, x)"
        by simp
      moreover have "snd (nearestScan c xs (Some \<bar>x - c\<bar>, x)) \<in> set xs
          \<or> (snd (nearestScan c xs (Some \<bar>x - c\<bar>, x)) = x \<and> Some \<bar>x - c\<bar> \<noteq> None)"
        by (rule Cons.IH) simp
      ultimately show ?thesis by auto
    next
      case False
      then have notNone: "d \<noteq> None" by (cases d) simp_all
      from False have "nearestScan c (x # xs) (d, n) = nearestScan c xs (d, n)"
        by simp
      moreover have "snd (nearestScan c xs (d, n)) \<in> set xs
          \<or> (snd (nearestScan c xs (d, n)) = n \<and> d \<noteq> None)"
        by (rule Cons.IH) (simp add: notNone)
      ultimately show ?thesis using notNone by auto
    qed
  qed
  from nonempty have "remaining \<noteq> []" by auto
  then have "snd (nearestScan headCopy remaining (None, - 1)) \<in> set remaining"
    using pick [of None remaining headCopy "- 1"] by simp
  with found have "snd found \<in> set remaining" by simp
  then have "length (removeAll (snd found) remaining) < length remaining"
    by (simp add: length_removeAll_less)
  then show "((set_delete (snd found) remaining, snd found, addDist t (fst found)),
              remaining, headCopy, t) \<in> measure (\<lambda>(remaining, h, t). length remaining)"
    by (simp add: set_delete_def)
qed

definition statsSstf :: "int list \<Rightarrow> int \<Rightarrow> int" where
  "statsSstf reqCopy headCopy =
     (let remaining = new_Set reqCopy
      in if set_has headCopy remaining
         then statsSstfLoop (set_delete headCopy remaining) headCopy 0
         else statsSstfLoop remaining headCopy 0)"

text \<open>
  In the four sweeping cases \<open>t1\<close>, \<open>h1\<close> are \<open>totalSeek\<close> and \<open>headCopy\<close> after the first
  \<open>if\<close>, and so on down the branch. \<open>right[right.length - 1]\<close> is \<open>last right\<close> and
  \<open>left[0]\<close> is \<open>hd left\<close>, both read under a length guard.
\<close>

definition statsScan :: "int \<Rightarrow> int list \<Rightarrow> int \<Rightarrow> string \<Rightarrow> int" where
  "statsScan diskMax reqCopy headCopy dirCopy =
     (let sorted = sort reqCopy;
          left = filter (\<lambda>r. r < headCopy) sorted;
          right = filter (\<lambda>r. r \<ge> headCopy) sorted
      in if dirCopy = ''right'' then
           (let t1 = (if length right > 0 then \<bar>last right - headCopy\<bar> else 0);
                h1 = (if length right > 0 then last right else headCopy);
                t2 = t1 + \<bar>diskMax - h1\<bar>;
                h2 = diskMax
            in if length left > 0 then t2 + \<bar>hd left - h2\<bar> else t2)
         else
           (let t1 = (if length left > 0 then \<bar>hd left - headCopy\<bar> else 0);
                h1 = (if length left > 0 then hd left else headCopy);
                t2 = t1 + \<bar>0 - h1\<bar>;
                h2 = 0
            in if length right > 0 then t2 + \<bar>last right - h2\<bar> else t2))"

definition statsCScan :: "int \<Rightarrow> int list \<Rightarrow> int \<Rightarrow> string \<Rightarrow> int" where
  "statsCScan diskMax reqCopy headCopy dirCopy =
     (let sorted = sort reqCopy;
          c_left = filter (\<lambda>r. r < headCopy) sorted;
          c_right = filter (\<lambda>r. r \<ge> headCopy) sorted
      in if dirCopy = ''right'' then
           (let t1 = (if length c_right > 0 then \<bar>last c_right - headCopy\<bar> else 0);
                h1 = (if length c_right > 0 then last c_right else headCopy);
                t2 = t1 + \<bar>diskMax - h1\<bar>;
                t3 = t2 + diskMax;
                h3 = 0
            in if length c_left > 0 then t3 + \<bar>last c_left - h3\<bar> else t3)
         else
           (let t1 = (if length c_left > 0 then \<bar>hd c_left - headCopy\<bar> else 0);
                h1 = (if length c_left > 0 then hd c_left else headCopy);
                t2 = t1 + \<bar>0 - h1\<bar>;
                t3 = t2 + diskMax;
                h3 = diskMax
            in if length c_right > 0 then t3 + \<bar>hd c_right - h3\<bar> else t3))"

definition statsLook :: "int list \<Rightarrow> int \<Rightarrow> string \<Rightarrow> int" where
  "statsLook reqCopy headCopy dirCopy =
     (let sorted = sort reqCopy;
          l_left = filter (\<lambda>r. r < headCopy) sorted;
          l_right = filter (\<lambda>r. r \<ge> headCopy) sorted
      in if dirCopy = ''right'' then
           (let t1 = (if length l_right > 0 then \<bar>last l_right - headCopy\<bar> else 0);
                h1 = (if length l_right > 0 then last l_right else headCopy)
            in if length l_left > 0 then t1 + \<bar>hd l_left - h1\<bar> else t1)
         else
           (let t1 = (if length l_left > 0 then \<bar>hd l_left - headCopy\<bar> else 0);
                h1 = (if length l_left > 0 then hd l_left else headCopy)
            in if length l_right > 0 then t1 + \<bar>last l_right - h1\<bar> else t1))"

definition statsCLook :: "int list \<Rightarrow> int \<Rightarrow> string \<Rightarrow> int" where
  "statsCLook reqCopy headCopy dirCopy =
     (let sorted = sort reqCopy;
          cl_left = filter (\<lambda>r. r < headCopy) sorted;
          cl_right = filter (\<lambda>r. r \<ge> headCopy) sorted
      in if dirCopy = ''right'' then
           (let t1 = (if length cl_right > 0 then \<bar>last cl_right - headCopy\<bar> else 0);
                h1 = (if length cl_right > 0 then last cl_right else headCopy)
            in if length cl_left > 0
               then t1 + \<bar>hd cl_left - h1\<bar> + \<bar>last cl_left - hd cl_left\<bar> else t1)
         else
           (let t1 = (if length cl_left > 0 then \<bar>hd cl_left - headCopy\<bar> else 0);
                h1 = (if length cl_left > 0 then hd cl_left else headCopy)
            in if length cl_right > 0
               then t1 + \<bar>last cl_right - h1\<bar> + \<bar>hd cl_right - last cl_right\<bar> else t1))"

text \<open>
  \<open>window.DISK_MAX || 199\<close> takes 199 when the global is 0. A token outside the six
  cases leaves \<open>totalSeek\<close> at 0.
\<close>

definition getAlgorithmStats :: "string \<Rightarrow> int list \<Rightarrow> int \<Rightarrow> string \<Rightarrow> window \<Rightarrow> int" where
  "getAlgorithmStats algo requests startHead direction w =
     (let reqCopy = (if algo = ''fcfs'' then requests else new_Set requests);
          headCopy = startHead;
          dirCopy = direction;
          diskMax = (if DISK_MAX w = 0 then 199 else DISK_MAX w)
      in if algo = ''fcfs'' then statsFcfs reqCopy headCopy
         else if algo = ''sstf'' then statsSstf reqCopy headCopy
         else if algo = ''scan'' then statsScan diskMax reqCopy headCopy dirCopy
         else if algo = ''c-scan'' then statsCScan diskMax reqCopy headCopy dirCopy
         else if algo = ''look'' then statsLook reqCopy headCopy dirCopy
         else if algo = ''c-look'' then statsCLook reqCopy headCopy dirCopy
         else 0)"

text \<open>The globals as app.js leaves them at start-up, for a disk of the given size.\<close>

definition initialWindow :: "int \<Rightarrow> window" where
  "initialWindow diskMax =
     \<lparr>DISK_MAX = diskMax, history = [], currentStateIndex = 0, originalRequestSet = []\<rparr>"

section \<open>Notions used in the proofs\<close>

text \<open>The history a walk has written so far.\<close>

abbreviation hist :: "walk \<Rightarrow> step list" where
  "hist s \<equiv> history (win s)"

text \<open>
  Two steps of a run in order: the seek total does not fall and what was served stays
  served, in the same order. The invariant of a walk: its history is ordered in this way,
  no step is ahead of the local variables, every step's set is its order without
  repetition, and every head is on the disk.
\<close>

definition step_rel :: "step \<Rightarrow> step \<Rightarrow> bool" where
  "step_rel a b = (seek a \<le> seek b \<and> prefix (servedOrder a) (servedOrder b))"

definition walk_inv :: "int \<Rightarrow> walk \<Rightarrow> bool" where
  "walk_inv D s =
     (hist s \<noteq> [] \<and> sorted_wrt step_rel (hist s) \<and>
      (\<forall>x\<in>set (hist s). seek x \<le> totalSeek s \<and> prefix (servedOrder x) (servedSeq s) \<and>
          served x = new_Set (servedOrder x) \<and> 0 \<le> head x \<and> head x \<le> D) \<and>
      servedSet s = new_Set (servedSeq s) \<and>
      0 \<le> currentHead s \<and> currentHead s \<le> D \<and> DISK_MAX (win s) = D)"

text \<open>
  A walk whose last step shows the head and the seek total of the local variables.
\<close>

definition synced :: "walk \<Rightarrow> bool" where
  "synced s = (hist s \<noteq> [] \<and> seek (last (hist s)) = totalSeek s \<and>
               head (last (hist s)) = currentHead s)"

text \<open>
  The distance a head travels from a position through a list of positions in turn.
\<close>

fun pathLen :: "int \<Rightarrow> int list \<Rightarrow> int" where
  "pathLen c [] = 0"
| "pathLen c (x # xs) = \<bar>x - c\<bar> + pathLen x xs"

declare sstfPathLoop.simps [simp del] statsSstfLoop.simps [simp del]

lemmas engine_defs = simulationRun_def calculateSimulationHistory_def calculateFcfsPath_def
  calculateSstfPath_def calculateScanPath_def calculateCScanPath_def calculateLookPath_def
  calculateCLookPath_def addHistoryStep_def startWalk_def fcfsVisit_def serve_def
  serveUnless_def serveAtStart_def sweepTo_def jumpTo_def jumpToLast_def addDist_def
  set_has_def set_add_def set_delete_def new_Set_def initialWindow_def
  getAlgorithmStats_def statsFcfs_def statsSstf_def statsScan_def statsCScan_def
  statsLook_def statsCLook_def Let_def sstfPathLoop.simps statsSstfLoop.simps

section \<open>Lemmas about the model\<close>

subsection \<open>The set model\<close>

lemma set_set_add: "set (set_add x s) = insert x (set s)"
  by (auto simp: set_add_def)

lemma distinct_set_add: "distinct s \<Longrightarrow> distinct (set_add x s)"
  by (simp add: set_add_def)

lemma fold_set_add_set: "set (fold set_add xs acc) = set xs \<union> set acc"
  by (induction xs arbitrary: acc) (auto simp: set_set_add)

lemma fold_set_add_distinct: "distinct acc \<Longrightarrow> distinct (fold set_add xs acc)"
  by (induction xs arbitrary: acc) (auto simp: distinct_set_add)

lemma set_new_Set: "set (new_Set xs) = set xs"
  by (simp add: new_Set_def fold_set_add_set)

lemma distinct_new_Set: "distinct (new_Set xs)"
  by (simp add: new_Set_def fold_set_add_distinct)

lemma fold_set_add_fresh:
  "distinct xs \<Longrightarrow> set xs \<inter> set acc = {} \<Longrightarrow> fold set_add xs acc = acc @ xs"
  by (induction xs arbitrary: acc) (auto simp: set_add_def)

lemma new_Set_distinct: "distinct xs \<Longrightarrow> new_Set xs = xs"
  by (simp add: new_Set_def fold_set_add_fresh)

lemma new_Set_idem: "new_Set (new_Set xs) = new_Set xs"
  by (simp add: new_Set_distinct distinct_new_Set)

lemma new_Set_snoc: "new_Set (xs @ [x]) = set_add x (new_Set xs)"
  by (simp add: new_Set_def)

lemma new_Set_Nil: "new_Set [] = []"
  by (simp add: new_Set_def)

lemma new_Set_prefix: "prefix xs ys \<Longrightarrow> set (new_Set xs) \<subseteq> set (new_Set ys)"
  by (auto simp: set_new_Set dest: set_mono_prefix)

subsection \<open>What one operation of a walk appends\<close>

lemma serve_sel:
  "currentHead (serve req s) = req"
  "totalSeek (serve req s) = totalSeek s + \<bar>req - currentHead s\<bar>"
  "servedSet (serve req s) = set_add req (servedSet s)"
  "servedSeq (serve req s) = servedSeq s @ [req]"
  "hist (serve req s) = hist s @ [\<lparr>head = req, seek = totalSeek s + \<bar>req - currentHead s\<bar>,
      served = set_add req (servedSet s), servedOrder = servedSeq s @ [req]\<rparr>]"
  "DISK_MAX (win (serve req s)) = DISK_MAX (win s)"
  "originalRequestSet (win (serve req s)) = originalRequestSet (win s)"
  by (simp_all add: serve_def addHistoryStep_def Let_def)

lemma fcfsVisit_sel:
  "currentHead (fcfsVisit req s) = req"
  "totalSeek (fcfsVisit req s) = totalSeek s + \<bar>req - currentHead s\<bar>"
  "DISK_MAX (win (fcfsVisit req s)) = DISK_MAX (win s)"
  "originalRequestSet (win (fcfsVisit req s)) = originalRequestSet (win s)"
  by (simp_all add: fcfsVisit_def addHistoryStep_def Let_def)

lemma fcfsVisit_member:
  assumes "req \<in> set (originalRequestSet (win s))"
  shows "fcfsVisit req s = serve req s"
  using assms by (simp add: fcfsVisit_def serve_def set_has_def Let_def)

lemma fcfsVisit_stranger:
  assumes "req \<notin> set (originalRequestSet (win s))"
  shows "servedSet (fcfsVisit req s) = servedSet s"
    and "servedSeq (fcfsVisit req s) = servedSeq s"
    and "hist (fcfsVisit req s) = hist s @ [\<lparr>head = req, seek = totalSeek s + \<bar>req - currentHead s\<bar>,
      served = servedSet s, servedOrder = servedSeq s\<rparr>]"
  using assms by (simp_all add: fcfsVisit_def addHistoryStep_def set_has_def Let_def)

lemma serveAtStart_sel:
  "currentHead (serveAtStart sh s) = currentHead s"
  "totalSeek (serveAtStart sh s) = totalSeek s"
  "servedSet (serveAtStart sh s) = set_add sh (servedSet s)"
  "servedSeq (serveAtStart sh s) = servedSeq s @ [sh]"
  "hist (serveAtStart sh s) = hist s @ [\<lparr>head = currentHead s, seek = totalSeek s,
      served = set_add sh (servedSet s), servedOrder = servedSeq s @ [sh]\<rparr>]"
  "DISK_MAX (win (serveAtStart sh s)) = DISK_MAX (win s)"
  by (simp_all add: serveAtStart_def addHistoryStep_def Let_def)

lemma sweepTo_sel:
  "currentHead (sweepTo b s) = b"
  "totalSeek (sweepTo b s) = totalSeek s + \<bar>b - currentHead s\<bar>"
  "servedSet (sweepTo b s) = servedSet s"
  "servedSeq (sweepTo b s) = servedSeq s"
  "hist (sweepTo b s) = hist s @ [\<lparr>head = b, seek = totalSeek s + \<bar>b - currentHead s\<bar>,
      served = servedSet s, servedOrder = servedSeq s\<rparr>]"
  "DISK_MAX (win (sweepTo b s)) = DISK_MAX (win s)"
  by (simp_all add: sweepTo_def addHistoryStep_def Let_def)

lemma jumpTo_sel:
  "currentHead (jumpTo b s) = b"
  "totalSeek (jumpTo b s) = totalSeek s + DISK_MAX (win s)"
  "servedSet (jumpTo b s) = servedSet s"
  "servedSeq (jumpTo b s) = servedSeq s"
  "hist (jumpTo b s) = hist s @ [\<lparr>head = b, seek = totalSeek s + DISK_MAX (win s),
      served = servedSet s, servedOrder = servedSeq s\<rparr>]"
  "DISK_MAX (win (jumpTo b s)) = DISK_MAX (win s)"
  by (simp_all add: jumpTo_def addHistoryStep_def Let_def)

lemma jumpToLast_sel:
  "currentHead (jumpToLast sh r s) = r"
  "totalSeek (jumpToLast sh r s) = totalSeek s + \<bar>r - currentHead s\<bar>"
  "servedSet (jumpToLast sh r s) = (if r \<noteq> sh then set_add r (servedSet s) else servedSet s)"
  "servedSeq (jumpToLast sh r s) = (if r \<noteq> sh then servedSeq s @ [r] else servedSeq s)"
  "hist (jumpToLast sh r s) = (if r \<noteq> sh then hist s @ [\<lparr>head = r, seek = totalSeek s + \<bar>r - currentHead s\<bar>,
      served = set_add r (servedSet s), servedOrder = servedSeq s @ [r]\<rparr>] else hist s)"
  "DISK_MAX (win (jumpToLast sh r s)) = DISK_MAX (win s)"
  by (simp_all add: jumpToLast_def addHistoryStep_def Let_def)

lemma startWalk_sel:
  "currentHead (startWalk sh w) = sh"
  "totalSeek (startWalk sh w) = 0"
  "servedSet (startWalk sh w) = []"
  "servedSeq (startWalk sh w) = []"
  "win (startWalk sh w) = w"
  by (simp_all add: startWalk_def)

subsection \<open>The nearest request\<close>

lemma nearestScan_Some:
  "\<exists>d' n'. nearestScan c xs (Some d, n) = (Some d', n') \<and>
     ((d' = d \<and> n' = n \<and> (\<forall>y\<in>set xs. d \<le> \<bar>y - c\<bar>)) \<or>
      (d' < d \<and> d' = \<bar>n' - c\<bar> \<and>
       (\<exists>before after. xs = before @ n' # after \<and>
          (\<forall>y\<in>set before. d' < \<bar>y - c\<bar>) \<and> (\<forall>y\<in>set after. d' \<le> \<bar>y - c\<bar>))))"
proof (induction xs arbitrary: d n)
  case Nil
  then show ?case by simp
next
  case (Cons x xs)
  show ?case
  proof (cases "\<bar>x - c\<bar> < d")
    case True
    then have step: "nearestScan c (x # xs) (Some d, n) = nearestScan c xs (Some \<bar>x - c\<bar>, x)"
      by simp
    from Cons.IH [of "\<bar>x - c\<bar>" x] obtain d' n' where
      res: "nearestScan c xs (Some \<bar>x - c\<bar>, x) = (Some d', n')" and
      alt: "(d' = \<bar>x - c\<bar> \<and> n' = x \<and> (\<forall>y\<in>set xs. \<bar>x - c\<bar> \<le> \<bar>y - c\<bar>)) \<or>
        (d' < \<bar>x - c\<bar> \<and> d' = \<bar>n' - c\<bar> \<and>
         (\<exists>before after. xs = before @ n' # after \<and>
            (\<forall>y\<in>set before. d' < \<bar>y - c\<bar>) \<and> (\<forall>y\<in>set after. d' \<le> \<bar>y - c\<bar>)))"
      by blast
    from alt show ?thesis
    proof
      assume kept: "d' = \<bar>x - c\<bar> \<and> n' = x \<and> (\<forall>y\<in>set xs. \<bar>x - c\<bar> \<le> \<bar>y - c\<bar>)"
      then have "x # xs = [] @ n' # xs \<and> (\<forall>y\<in>set []. d' < \<bar>y - c\<bar>) \<and> (\<forall>y\<in>set xs. d' \<le> \<bar>y - c\<bar>)"
        by simp
      then have "\<exists>before after. x # xs = before @ n' # after \<and>
            (\<forall>y\<in>set before. d' < \<bar>y - c\<bar>) \<and> (\<forall>y\<in>set after. d' \<le> \<bar>y - c\<bar>)"
        by blast
      with kept True step res show ?thesis by simp
    next
      assume later: "d' < \<bar>x - c\<bar> \<and> d' = \<bar>n' - c\<bar> \<and>
         (\<exists>before after. xs = before @ n' # after \<and>
            (\<forall>y\<in>set before. d' < \<bar>y - c\<bar>) \<and> (\<forall>y\<in>set after. d' \<le> \<bar>y - c\<bar>))"
      then obtain before after where
        split: "xs = before @ n' # after" "\<forall>y\<in>set before. d' < \<bar>y - c\<bar>"
          "\<forall>y\<in>set after. d' \<le> \<bar>y - c\<bar>"
        by blast
      from split later have "x # xs = (x # before) @ n' # after \<and>
          (\<forall>y\<in>set (x # before). d' < \<bar>y - c\<bar>) \<and> (\<forall>y\<in>set after. d' \<le> \<bar>y - c\<bar>)"
        by simp
      then have "\<exists>before after. x # xs = before @ n' # after \<and>
            (\<forall>y\<in>set before. d' < \<bar>y - c\<bar>) \<and> (\<forall>y\<in>set after. d' \<le> \<bar>y - c\<bar>)"
        by blast
      moreover from later True have "d' < d" by simp
      ultimately show ?thesis using later step res by simp
    qed
  next
    case False
    then have step: "nearestScan c (x # xs) (Some d, n) = nearestScan c xs (Some d, n)"
      by simp
    from Cons.IH [of d n] obtain d' n' where
      res: "nearestScan c xs (Some d, n) = (Some d', n')" and
      alt: "(d' = d \<and> n' = n \<and> (\<forall>y\<in>set xs. d \<le> \<bar>y - c\<bar>)) \<or>
        (d' < d \<and> d' = \<bar>n' - c\<bar> \<and>
         (\<exists>before after. xs = before @ n' # after \<and>
            (\<forall>y\<in>set before. d' < \<bar>y - c\<bar>) \<and> (\<forall>y\<in>set after. d' \<le> \<bar>y - c\<bar>)))"
      by blast
    from alt show ?thesis
    proof
      assume "d' = d \<and> n' = n \<and> (\<forall>y\<in>set xs. d \<le> \<bar>y - c\<bar>)"
      with False step res show ?thesis by simp
    next
      assume later: "d' < d \<and> d' = \<bar>n' - c\<bar> \<and>
         (\<exists>before after. xs = before @ n' # after \<and>
            (\<forall>y\<in>set before. d' < \<bar>y - c\<bar>) \<and> (\<forall>y\<in>set after. d' \<le> \<bar>y - c\<bar>))"
      then obtain before after where
        split: "xs = before @ n' # after" "\<forall>y\<in>set before. d' < \<bar>y - c\<bar>"
          "\<forall>y\<in>set after. d' \<le> \<bar>y - c\<bar>"
        by blast
      from later False have "d' < \<bar>x - c\<bar>" by simp
      with split have "x # xs = (x # before) @ n' # after \<and>
          (\<forall>y\<in>set (x # before). d' < \<bar>y - c\<bar>) \<and> (\<forall>y\<in>set after. d' \<le> \<bar>y - c\<bar>)"
        by simp
      then have "\<exists>before after. x # xs = before @ n' # after \<and>
            (\<forall>y\<in>set before. d' < \<bar>y - c\<bar>) \<and> (\<forall>y\<in>set after. d' \<le> \<bar>y - c\<bar>)"
        by blast
      with later step res show ?thesis by simp
    qed
  qed
qed

lemma nearestScan_first_nearest:
  assumes "remaining \<noteq> []"
  shows "\<exists>n before after. nearestScan c remaining (None, m) = (Some \<bar>n - c\<bar>, n) \<and>
     remaining = before @ n # after \<and>
     (\<forall>y\<in>set before. \<bar>n - c\<bar> < \<bar>y - c\<bar>) \<and> (\<forall>y\<in>set after. \<bar>n - c\<bar> \<le> \<bar>y - c\<bar>)"
proof -
  from assms obtain x xs where shape: "remaining = x # xs"
    by (cases remaining) auto
  then have step: "nearestScan c remaining (None, m) = nearestScan c xs (Some \<bar>x - c\<bar>, x)"
    by simp
  from nearestScan_Some [of c xs "\<bar>x - c\<bar>" x] obtain d' n' where
    res: "nearestScan c xs (Some \<bar>x - c\<bar>, x) = (Some d', n')" and
    alt: "(d' = \<bar>x - c\<bar> \<and> n' = x \<and> (\<forall>y\<in>set xs. \<bar>x - c\<bar> \<le> \<bar>y - c\<bar>)) \<or>
      (d' < \<bar>x - c\<bar> \<and> d' = \<bar>n' - c\<bar> \<and>
       (\<exists>before after. xs = before @ n' # after \<and>
          (\<forall>y\<in>set before. d' < \<bar>y - c\<bar>) \<and> (\<forall>y\<in>set after. d' \<le> \<bar>y - c\<bar>)))"
    by blast
  from alt show ?thesis
  proof
    assume kept: "d' = \<bar>x - c\<bar> \<and> n' = x \<and> (\<forall>y\<in>set xs. \<bar>x - c\<bar> \<le> \<bar>y - c\<bar>)"
    with shape step res have "nearestScan c remaining (None, m) = (Some \<bar>x - c\<bar>, x) \<and>
        remaining = [] @ x # xs \<and> (\<forall>y\<in>set []. \<bar>x - c\<bar> < \<bar>y - c\<bar>) \<and>
        (\<forall>y\<in>set xs. \<bar>x - c\<bar> \<le> \<bar>y - c\<bar>)"
      by simp
    then show ?thesis by blast
  next
    assume later: "d' < \<bar>x - c\<bar> \<and> d' = \<bar>n' - c\<bar> \<and>
       (\<exists>before after. xs = before @ n' # after \<and>
          (\<forall>y\<in>set before. d' < \<bar>y - c\<bar>) \<and> (\<forall>y\<in>set after. d' \<le> \<bar>y - c\<bar>))"
    then obtain before after where
      split: "xs = before @ n' # after" "\<forall>y\<in>set before. d' < \<bar>y - c\<bar>"
        "\<forall>y\<in>set after. d' \<le> \<bar>y - c\<bar>"
      by blast
    with later shape step res have "nearestScan c remaining (None, m) = (Some \<bar>n' - c\<bar>, n') \<and>
        remaining = (x # before) @ n' # after \<and>
        (\<forall>y\<in>set (x # before). \<bar>n' - c\<bar> < \<bar>y - c\<bar>) \<and> (\<forall>y\<in>set after. \<bar>n' - c\<bar> \<le> \<bar>y - c\<bar>)"
      by simp
    then show ?thesis by blast
  qed
qed

lemma sstfPathLoop_Nil: "sstfPathLoop [] s = s"
  by (simp add: sstfPathLoop.simps)

lemma sstfPathLoop_step:
  assumes "remaining \<noteq> []"
  shows "\<exists>n\<in>set remaining. nearestScan (currentHead s) remaining (None, - 1)
           = (Some \<bar>n - currentHead s\<bar>, n) \<and>
         sstfPathLoop remaining s = sstfPathLoop (set_delete n remaining) (serve n s)"
proof -
  from nearestScan_first_nearest [OF assms, of "currentHead s" "- 1"]
  obtain n before after where
    found: "nearestScan (currentHead s) remaining (None, - 1) = (Some \<bar>n - currentHead s\<bar>, n)"
    and split: "remaining = before @ n # after"
    by blast
  from split have mem: "n \<in> set remaining" by simp
  from assms have "0 < length remaining" by simp
  then have "sstfPathLoop remaining s = sstfPathLoop (set_delete n remaining) (serve n s)"
    by (subst sstfPathLoop.simps) (simp add: found addDist_def serve_def Let_def)
  with mem found show ?thesis by blast
qed

lemma statsSstfLoop_Nil: "statsSstfLoop [] h t = t"
  by (simp add: statsSstfLoop.simps)

lemma statsSstfLoop_step:
  assumes "remaining \<noteq> []"
  shows "\<exists>n\<in>set remaining. nearestScan h remaining (None, - 1) = (Some \<bar>n - h\<bar>, n) \<and>
         statsSstfLoop remaining h t = statsSstfLoop (set_delete n remaining) n (t + \<bar>n - h\<bar>)"
proof -
  from nearestScan_first_nearest [OF assms, of h "- 1"]
  obtain n before after where
    found: "nearestScan h remaining (None, - 1) = (Some \<bar>n - h\<bar>, n)"
    and split: "remaining = before @ n # after"
    by blast
  from split have mem: "n \<in> set remaining" by simp
  from assms have "0 < length remaining" by simp
  then have "statsSstfLoop remaining h t = statsSstfLoop (set_delete n remaining) n (t + \<bar>n - h\<bar>)"
    by (subst statsSstfLoop.simps) (simp add: found addDist_def Let_def)
  with mem found show ?thesis by blast
qed

subsection \<open>The walk invariant\<close>

lemma step_rel_refl: "step_rel a a"
  by (simp add: step_rel_def)

lemma walk_inv_append:
  assumes inv: "walk_inv D s"
    and hist: "hist s' = hist s @ [st]"
    and seek: "seek st = totalSeek s'" "totalSeek s \<le> totalSeek s'"
    and order: "servedOrder st = servedSeq s'" "prefix (servedSeq s) (servedSeq s')"
    and served: "served st = servedSet s'" "servedSet s' = new_Set (servedSeq s')"
    and range: "0 \<le> head st" "head st \<le> D" "0 \<le> currentHead s'" "currentHead s' \<le> D"
    and disk: "DISK_MAX (win s') = D"
  shows "walk_inv D s'"
proof -
  from inv have old: "sorted_wrt step_rel (hist s)"
    and each: "\<forall>x\<in>set (hist s). seek x \<le> totalSeek s \<and> prefix (servedOrder x) (servedSeq s) \<and>
          served x = new_Set (servedOrder x) \<and> 0 \<le> head x \<and> head x \<le> D"
    by (simp_all add: walk_inv_def)
  have below: "\<forall>x\<in>set (hist s). step_rel x st"
  proof
    fix x assume "x \<in> set (hist s)"
    with each have "seek x \<le> totalSeek s" "prefix (servedOrder x) (servedSeq s)" by auto
    with seek order show "step_rel x st"
      by (auto simp: step_rel_def intro: prefix_order.trans)
  qed
  have sorted: "sorted_wrt step_rel (hist s')"
    using old below by (simp add: hist sorted_wrt_append)
  have each': "\<forall>x\<in>set (hist s'). seek x \<le> totalSeek s' \<and> prefix (servedOrder x) (servedSeq s') \<and>
          served x = new_Set (servedOrder x) \<and> 0 \<le> head x \<and> head x \<le> D"
  proof
    fix x assume "x \<in> set (hist s')"
    then consider "x \<in> set (hist s)" | "x = st" by (auto simp: hist)
    then show "seek x \<le> totalSeek s' \<and> prefix (servedOrder x) (servedSeq s') \<and>
          served x = new_Set (servedOrder x) \<and> 0 \<le> head x \<and> head x \<le> D"
    proof cases
      case 1
      with each have "seek x \<le> totalSeek s" "prefix (servedOrder x) (servedSeq s)"
        "served x = new_Set (servedOrder x)" "0 \<le> head x" "head x \<le> D" by auto
      with seek order show ?thesis by (auto intro: prefix_order.trans)
    next
      case 2
      with seek order served range show ?thesis by simp
    qed
  qed
  from sorted each' served range disk hist show ?thesis
    by (simp add: walk_inv_def)
qed

lemma walk_inv_serve:
  assumes "walk_inv D s" "0 \<le> r" "r \<le> D"
  shows "walk_inv D (serve r s)"
proof (rule walk_inv_append [OF assms(1)])
  show "hist (serve r s) = hist s @ [\<lparr>head = r, seek = totalSeek s + \<bar>r - currentHead s\<bar>,
      served = set_add r (servedSet s), servedOrder = servedSeq s @ [r]\<rparr>]"
    by (simp add: serve_sel)
  show "servedSet (serve r s) = new_Set (servedSeq (serve r s))"
    using assms(1) by (simp add: serve_sel new_Set_snoc walk_inv_def)
  show "DISK_MAX (win (serve r s)) = D"
    using assms(1) by (simp add: serve_sel walk_inv_def)
qed (use assms in \<open>simp_all add: serve_sel\<close>)

lemma walk_inv_serveUnless:
  assumes "walk_inv D s" "0 \<le> r" "r \<le> D"
  shows "walk_inv D (serveUnless sh r s)"
  using assms by (simp add: serveUnless_def walk_inv_serve)

lemma walk_inv_fcfsVisit:
  assumes "walk_inv D s" "0 \<le> r" "r \<le> D"
  shows "walk_inv D (fcfsVisit r s)"
proof (cases "r \<in> set (originalRequestSet (win s))")
  case True
  then show ?thesis using assms by (simp add: fcfsVisit_member walk_inv_serve)
next
  case False
  show ?thesis
  proof (rule walk_inv_append [OF assms(1)])
    show "hist (fcfsVisit r s) = hist s @ [\<lparr>head = r, seek = totalSeek s + \<bar>r - currentHead s\<bar>,
        served = servedSet s, servedOrder = servedSeq s\<rparr>]"
      using False by (simp add: fcfsVisit_stranger)
    show "servedSet (fcfsVisit r s) = new_Set (servedSeq (fcfsVisit r s))"
      using assms(1) False by (simp add: fcfsVisit_stranger walk_inv_def)
    show "DISK_MAX (win (fcfsVisit r s)) = D"
      using assms(1) by (simp add: fcfsVisit_sel walk_inv_def)
  qed (use assms False in \<open>simp_all add: fcfsVisit_sel fcfsVisit_stranger\<close>)
qed

lemma walk_inv_serveAtStart:
  assumes "walk_inv D s"
  shows "walk_inv D (serveAtStart sh s)"
proof (rule walk_inv_append [OF assms(1)])
  show "hist (serveAtStart sh s) = hist s @ [\<lparr>head = currentHead s, seek = totalSeek s,
      served = set_add sh (servedSet s), servedOrder = servedSeq s @ [sh]\<rparr>]"
    by (simp add: serveAtStart_sel)
  show "servedSet (serveAtStart sh s) = new_Set (servedSeq (serveAtStart sh s))"
    using assms(1) by (simp add: serveAtStart_sel new_Set_snoc walk_inv_def)
qed (use assms in \<open>simp_all add: serveAtStart_sel walk_inv_def\<close>)

lemma walk_inv_sweepTo:
  assumes "walk_inv D s" "0 \<le> b" "b \<le> D"
  shows "walk_inv D (sweepTo b s)"
proof (rule walk_inv_append [OF assms(1)])
  show "hist (sweepTo b s) = hist s @ [\<lparr>head = b, seek = totalSeek s + \<bar>b - currentHead s\<bar>,
      served = servedSet s, servedOrder = servedSeq s\<rparr>]"
    by (simp add: sweepTo_sel)
qed (use assms in \<open>simp_all add: sweepTo_sel walk_inv_def\<close>)

lemma walk_inv_jumpTo:
  assumes "walk_inv D s" "0 \<le> b" "b \<le> D"
  shows "walk_inv D (jumpTo b s)"
proof (rule walk_inv_append [OF assms(1)])
  show "hist (jumpTo b s) = hist s @ [\<lparr>head = b, seek = totalSeek s + DISK_MAX (win s),
      served = servedSet s, servedOrder = servedSeq s\<rparr>]"
    by (simp add: jumpTo_sel)
qed (use assms in \<open>simp_all add: jumpTo_sel walk_inv_def\<close>)

lemma walk_inv_moved:
  assumes "walk_inv D s" "0 \<le> r" "r \<le> D" "0 \<le> d"
  shows "walk_inv D (s\<lparr>currentHead := r, totalSeek := totalSeek s + d\<rparr>)"
  using assms by (fastforce simp: walk_inv_def)

lemma walk_inv_jumpToLast:
  assumes "walk_inv D s" "0 \<le> r" "r \<le> D"
  shows "walk_inv D (jumpToLast sh r s)"
proof (cases "r = sh")
  case True
  have "jumpToLast sh r s = s\<lparr>currentHead := r, totalSeek := totalSeek s + \<bar>r - currentHead s\<bar>\<rparr>"
    using True by (simp add: jumpToLast_def Let_def)
  then show ?thesis using assms by (simp add: walk_inv_moved)
next
  case False
  then have "jumpToLast sh r s = serve r s"
    by (simp add: jumpToLast_def serve_def Let_def)
  then show ?thesis using assms by (simp add: walk_inv_serve)
qed

lemma walk_inv_fold:
  assumes step: "\<And>r s. walk_inv D s \<Longrightarrow> 0 \<le> r \<Longrightarrow> r \<le> D \<Longrightarrow> walk_inv D (f r s)"
    and "walk_inv D s" "set xs \<subseteq> {0..D}"
  shows "walk_inv D (fold f xs s)"
  using assms(2,3) by (induction xs arbitrary: s) (auto intro: step)

lemma walk_inv_sstfPathLoop:
  assumes "walk_inv D s" "set remaining \<subseteq> {0..D}"
  shows "walk_inv D (sstfPathLoop remaining s)"
  using assms
proof (induction "length remaining" arbitrary: remaining s rule: less_induct)
  case less
  show ?case
  proof (cases "remaining = []")
    case True
    with less.prems show ?thesis by (simp add: sstfPathLoop_Nil)
  next
    case False
    from sstfPathLoop_step [OF False, of s] obtain n where
      mem: "n \<in> set remaining" and
      unfold: "sstfPathLoop remaining s = sstfPathLoop (set_delete n remaining) (serve n s)"
      by blast
    from mem less.prems have range: "0 \<le> n" "n \<le> D" by auto
    have shorter: "length (set_delete n remaining) < length remaining"
      using mem by (simp add: set_delete_def length_removeAll_less)
    have "walk_inv D (sstfPathLoop (set_delete n remaining) (serve n s))"
    proof (rule less.hyps [OF shorter])
      show "walk_inv D (serve n s)"
        using less.prems range by (simp add: walk_inv_serve)
      show "set (set_delete n remaining) \<subseteq> {0..D}"
        using less.prems by (auto simp: set_delete_def)
    qed
    with unfold show ?thesis by simp
  qed
qed

subsection \<open>What a walk has served\<close>

lemma servedSeq_fold_serve: "servedSeq (fold serve xs s) = servedSeq s @ xs"
  by (induction xs arbitrary: s) (simp_all add: serve_sel)

lemma servedSeq_fold_serveUnless:
  "servedSeq (fold (serveUnless sh) xs s) = servedSeq s @ filter (\<lambda>r. r \<noteq> sh) xs"
  by (induction xs arbitrary: s) (simp_all add: serveUnless_def serve_sel)

lemma servedSeq_sstfPathLoop:
  assumes "distinct (servedSeq s)" "distinct remaining" "set remaining \<inter> set (servedSeq s) = {}"
  shows "distinct (servedSeq (sstfPathLoop remaining s))"
  using assms
proof (induction "length remaining" arbitrary: remaining s rule: less_induct)
  case less
  show ?case
  proof (cases "remaining = []")
    case True
    with less.prems show ?thesis by (simp add: sstfPathLoop_Nil)
  next
    case False
    from sstfPathLoop_step [OF False, of s] obtain n where
      mem: "n \<in> set remaining" and
      unfold: "sstfPathLoop remaining s = sstfPathLoop (set_delete n remaining) (serve n s)"
      by blast
    have shorter: "length (set_delete n remaining) < length remaining"
      using mem by (simp add: set_delete_def length_removeAll_less)
    have "distinct (servedSeq (sstfPathLoop (set_delete n remaining) (serve n s)))"
    proof (rule less.hyps [OF shorter])
      show "distinct (servedSeq (serve n s))"
        using less.prems mem by (auto simp: serve_sel)
      show "distinct (set_delete n remaining)"
        using less.prems by (simp add: set_delete_def distinct_removeAll)
      show "set (set_delete n remaining) \<inter> set (servedSeq (serve n s)) = {}"
        using less.prems by (auto simp: set_delete_def serve_sel)
    qed
    with unfold show ?thesis by simp
  qed
qed

subsection \<open>The sorted distinct requests and their two sides\<close>

lemma sorted_requests:
  "set (sort (new_Set requests)) = set requests"
  "distinct (sort (new_Set requests))"
  "sorted (sort (new_Set requests))"
  by (simp_all add: set_new_Set distinct_new_Set)

lemma walk_inv_startWalk:
  assumes "0 \<le> sh" "sh \<le> DISK_MAX w"
  shows "walk_inv (DISK_MAX w) (startWalk sh (addHistoryStep sh 0 [] []
           (w\<lparr>history := [], currentStateIndex := 0, originalRequestSet := ors\<rparr>)))"
  using assms by (simp add: walk_inv_def startWalk_def addHistoryStep_def new_Set_Nil)

lemma calculateScanPath_walk:
  assumes inv: "walk_inv D (startWalk sh w)" and range: "set requests \<subseteq> {0..D}"
    and fresh: "servedSeq (startWalk sh w) = []"
  shows "\<exists>s. calculateScanPath requests sh dir w = win s \<and> walk_inv D s \<and> distinct (servedSeq s)"
proof -
  define S where "S = sort (new_Set requests)"
  define L where "L = filter (\<lambda>r. r < sh) S"
  define R where "R = filter (\<lambda>r. r \<ge> sh) S"
  define s1 where "s1 = (if sh \<in> set S then serveAtStart sh (startWalk sh w) else startWalk sh w)"
  have S: "set S \<subseteq> {0..D}" "distinct S"
    using range by (simp_all add: S_def set_new_Set distinct_new_Set)
  then have LR: "set L \<subseteq> {0..D}" "set R \<subseteq> {0..D}" "distinct L" "distinct R"
    by (auto simp: L_def R_def)
  from inv have D0: "0 \<le> D" by (auto simp: walk_inv_def)
  have i1: "walk_inv D s1"
    using inv by (simp add: s1_def walk_inv_serveAtStart)
  have q1: "servedSeq s1 = (if sh \<in> set S then [sh] else [])"
    using fresh by (simp add: s1_def serveAtStart_sel)
  show ?thesis
  proof (cases "dir = ''right''")
    case True
    define s2 where "s2 = fold (serveUnless sh) R s1"
    define s3 where "s3 = (if currentHead s2 \<noteq> D then sweepTo D s2 else s2)"
    define s4 where "s4 = fold serve (rev L) s3"
    have i2: "walk_inv D s2"
      unfolding s2_def using i1 LR by (intro walk_inv_fold walk_inv_serveUnless)
    then have d2: "DISK_MAX (win s2) = D" by (simp add: walk_inv_def)
    have i3: "walk_inv D s3"
      using i2 D0 by (simp add: s3_def walk_inv_sweepTo)
    have i4: "walk_inv D s4"
      unfolding s4_def using i3 LR by (intro walk_inv_fold walk_inv_serve) auto
    have q4: "servedSeq s4 = servedSeq s1 @ filter (\<lambda>r. r \<noteq> sh) R @ rev L"
      by (simp add: s4_def s3_def s2_def servedSeq_fold_serve servedSeq_fold_serveUnless sweepTo_sel)
    have "distinct (servedSeq s4)"
      using S by (auto simp: q4 q1 L_def R_def)
    moreover have "calculateScanPath requests sh dir w = win s4"
      using True d2
      by (simp add: calculateScanPath_def Let_def s4_def s3_def s2_def s1_def L_def R_def S_def)
    ultimately show ?thesis using i4 by blast
  next
    case False
    define s2 where "s2 = fold serve (rev L) s1"
    define s3 where "s3 = (if currentHead s2 \<noteq> 0 then sweepTo 0 s2 else s2)"
    define s4 where "s4 = fold (serveUnless sh) R s3"
    have i2: "walk_inv D s2"
      unfolding s2_def using i1 LR by (intro walk_inv_fold walk_inv_serve) auto
    have i3: "walk_inv D s3"
      using i2 D0 by (simp add: s3_def walk_inv_sweepTo)
    have i4: "walk_inv D s4"
      unfolding s4_def using i3 LR by (intro walk_inv_fold walk_inv_serveUnless)
    have q4: "servedSeq s4 = servedSeq s1 @ rev L @ filter (\<lambda>r. r \<noteq> sh) R"
      by (simp add: s4_def s3_def s2_def servedSeq_fold_serve servedSeq_fold_serveUnless sweepTo_sel)
    have "distinct (servedSeq s4)"
      using S by (auto simp: q4 q1 L_def R_def)
    moreover have "calculateScanPath requests sh dir w = win s4"
      using False
      by (simp add: calculateScanPath_def Let_def s4_def s3_def s2_def s1_def L_def R_def S_def)
    ultimately show ?thesis using i4 by blast
  qed
qed

lemma DISK_MAX_fold_serve: "DISK_MAX (win (fold serve xs s)) = DISK_MAX (win s)"
  by (induction xs arbitrary: s) (simp_all add: serve_sel)

lemma DISK_MAX_fold_serveUnless: "DISK_MAX (win (fold (serveUnless sh) xs s)) = DISK_MAX (win s)"
  by (induction xs arbitrary: s) (simp_all add: serveUnless_def serve_sel)

lemma calculateCScanPath_walk:
  assumes inv: "walk_inv D (startWalk sh w)" and range: "set requests \<subseteq> {0..D}"
    and fresh: "servedSeq (startWalk sh w) = []"
  shows "\<exists>s. calculateCScanPath requests sh dir w = win s \<and> walk_inv D s \<and> distinct (servedSeq s)"
proof -
  define S where "S = sort (new_Set requests)"
  define L where "L = filter (\<lambda>r. r < sh) S"
  define R where "R = filter (\<lambda>r. r \<ge> sh) S"
  define s1 where "s1 = (if sh \<in> set S then serveAtStart sh (startWalk sh w) else startWalk sh w)"
  have S: "set S \<subseteq> {0..D}" "distinct S"
    using range by (simp_all add: S_def set_new_Set distinct_new_Set)
  then have LR: "set L \<subseteq> {0..D}" "set R \<subseteq> {0..D}"
    by (auto simp: L_def R_def)
  from inv have D0: "0 \<le> D" by (auto simp: walk_inv_def)
  have i1: "walk_inv D s1"
    using inv by (simp add: s1_def walk_inv_serveAtStart)
  have q1: "servedSeq s1 = (if sh \<in> set S then [sh] else [])"
    using fresh by (simp add: s1_def serveAtStart_sel)
  show ?thesis
  proof (cases "dir = ''right''")
    case True
    define s2 where "s2 = fold (serveUnless sh) R s1"
    define s3 where "s3 = (if currentHead s2 \<noteq> D then sweepTo D s2 else s2)"
    define s4 where "s4 = jumpTo 0 s3"
    define s5 where "s5 = fold serve L s4"
    have i2: "walk_inv D s2"
      unfolding s2_def using i1 LR by (intro walk_inv_fold walk_inv_serveUnless)
    then have d2: "DISK_MAX (win s2) = D" by (simp add: walk_inv_def)
    have i3: "walk_inv D s3"
      using i2 D0 by (simp add: s3_def walk_inv_sweepTo)
    have i4: "walk_inv D s4"
      using i3 D0 by (simp add: s4_def walk_inv_jumpTo)
    have i5: "walk_inv D s5"
      unfolding s5_def using i4 LR by (intro walk_inv_fold walk_inv_serve)
    have q5: "servedSeq s5 = servedSeq s1 @ filter (\<lambda>r. r \<noteq> sh) R @ L"
      by (simp add: s5_def s4_def s3_def s2_def servedSeq_fold_serve servedSeq_fold_serveUnless
          sweepTo_sel jumpTo_sel)
    have "distinct (servedSeq s5)"
      using S by (auto simp: q5 q1 L_def R_def)
    moreover have "calculateCScanPath requests sh dir w = win s5"
      using True d2
      by (simp add: calculateCScanPath_def Let_def s5_def s4_def s3_def s2_def s1_def
          L_def R_def S_def)
    ultimately show ?thesis using i5 by blast
  next
    case False
    define s2 where "s2 = fold serve (rev L) s1"
    define s3 where "s3 = (if currentHead s2 \<noteq> 0 then sweepTo 0 s2 else s2)"
    define s4 where "s4 = jumpTo D s3"
    define s5 where "s5 = fold (serveUnless sh) (rev R) s4"
    have i2: "walk_inv D s2"
      unfolding s2_def using i1 LR by (intro walk_inv_fold walk_inv_serve) auto
    have i3: "walk_inv D s3"
      using i2 D0 by (simp add: s3_def walk_inv_sweepTo)
    then have d3: "DISK_MAX (win s3) = D" by (simp add: walk_inv_def)
    have i4: "walk_inv D s4"
      using i3 D0 by (simp add: s4_def walk_inv_jumpTo)
    have i5: "walk_inv D s5"
      unfolding s5_def using i4 LR by (intro walk_inv_fold walk_inv_serveUnless) auto
    have q5: "servedSeq s5 = servedSeq s1 @ rev L @ filter (\<lambda>r. r \<noteq> sh) (rev R)"
      by (simp add: s5_def s4_def s3_def s2_def servedSeq_fold_serve servedSeq_fold_serveUnless
          sweepTo_sel jumpTo_sel)
    have "distinct (servedSeq s5)"
      using S by (auto simp: q5 q1 L_def R_def)
    moreover have "DISK_MAX w = D"
      using inv by (simp add: walk_inv_def startWalk_sel)
    then have "calculateCScanPath requests sh dir w = win s5"
      using False
      by (simp add: calculateCScanPath_def Let_def s5_def s4_def s3_def s2_def s1_def
          L_def R_def S_def sweepTo_sel DISK_MAX_fold_serve serveAtStart_sel startWalk_sel)
    ultimately show ?thesis using i5 by blast
  qed
qed

lemma calculateLookPath_walk:
  assumes inv: "walk_inv D (startWalk sh w)" and range: "set requests \<subseteq> {0..D}"
    and fresh: "servedSeq (startWalk sh w) = []"
  shows "\<exists>s. calculateLookPath requests sh dir w = win s \<and> walk_inv D s \<and> distinct (servedSeq s)"
proof -
  define S where "S = sort (new_Set requests)"
  define L where "L = filter (\<lambda>r. r < sh) S"
  define R where "R = filter (\<lambda>r. r \<ge> sh) S"
  define s1 where "s1 = (if sh \<in> set S then serveAtStart sh (startWalk sh w) else startWalk sh w)"
  have S: "set S \<subseteq> {0..D}" "distinct S"
    using range by (simp_all add: S_def set_new_Set distinct_new_Set)
  then have LR: "set L \<subseteq> {0..D}" "set R \<subseteq> {0..D}"
    by (auto simp: L_def R_def)
  have i1: "walk_inv D s1"
    using inv by (simp add: s1_def walk_inv_serveAtStart)
  have q1: "servedSeq s1 = (if sh \<in> set S then [sh] else [])"
    using fresh by (simp add: s1_def serveAtStart_sel)
  show ?thesis
  proof (cases "dir = ''right''")
    case True
    define s2 where "s2 = fold (serveUnless sh) R s1"
    define s3 where "s3 = fold serve (rev L) s2"
    have i2: "walk_inv D s2"
      unfolding s2_def using i1 LR by (intro walk_inv_fold walk_inv_serveUnless)
    have i3: "walk_inv D s3"
      unfolding s3_def using i2 LR by (intro walk_inv_fold walk_inv_serve) auto
    have q3: "servedSeq s3 = servedSeq s1 @ filter (\<lambda>r. r \<noteq> sh) R @ rev L"
      by (simp add: s3_def s2_def servedSeq_fold_serve servedSeq_fold_serveUnless)
    have "distinct (servedSeq s3)"
      using S by (auto simp: q3 q1 L_def R_def)
    moreover have "calculateLookPath requests sh dir w = win s3"
      using True
      by (simp add: calculateLookPath_def Let_def s3_def s2_def s1_def L_def R_def S_def)
    ultimately show ?thesis using i3 by blast
  next
    case False
    define s2 where "s2 = fold serve (rev L) s1"
    define s3 where "s3 = fold (serveUnless sh) R s2"
    have i2: "walk_inv D s2"
      unfolding s2_def using i1 LR by (intro walk_inv_fold walk_inv_serve) auto
    have i3: "walk_inv D s3"
      unfolding s3_def using i2 LR by (intro walk_inv_fold walk_inv_serveUnless)
    have q3: "servedSeq s3 = servedSeq s1 @ rev L @ filter (\<lambda>r. r \<noteq> sh) R"
      by (simp add: s3_def s2_def servedSeq_fold_serve servedSeq_fold_serveUnless)
    have "distinct (servedSeq s3)"
      using S by (auto simp: q3 q1 L_def R_def)
    moreover have "calculateLookPath requests sh dir w = win s3"
      using False
      by (simp add: calculateLookPath_def Let_def s3_def s2_def s1_def L_def R_def S_def)
    ultimately show ?thesis using i3 by blast
  qed
qed

lemma servedSeq_jumpToLast:
  "servedSeq (jumpToLast sh r s) = servedSeq s @ filter (\<lambda>r. r \<noteq> sh) [r]"
  by (simp add: jumpToLast_sel)

lemma calculateCLookPath_walk:
  assumes inv: "walk_inv D (startWalk sh w)" and range: "set requests \<subseteq> {0..D}"
    and fresh: "servedSeq (startWalk sh w) = []"
  shows "\<exists>s. calculateCLookPath requests sh dir w = win s \<and> walk_inv D s \<and> distinct (servedSeq s)"
proof -
  define S where "S = sort (new_Set requests)"
  define L where "L = filter (\<lambda>r. r < sh) S"
  define R where "R = filter (\<lambda>r. r \<ge> sh) S"
  define s1 where "s1 = (if sh \<in> set S then serveAtStart sh (startWalk sh w) else startWalk sh w)"
  have S: "set S \<subseteq> {0..D}" "distinct S"
    using range by (simp_all add: S_def set_new_Set distinct_new_Set)
  then have LR: "set L \<subseteq> {0..D}" "set R \<subseteq> {0..D}"
    by (auto simp: L_def R_def)
  have i1: "walk_inv D s1"
    using inv by (simp add: s1_def walk_inv_serveAtStart)
  have q1: "servedSeq s1 = (if sh \<in> set S then [sh] else [])"
    using fresh by (simp add: s1_def serveAtStart_sel)
  show ?thesis
  proof (cases "dir = ''right''")
    case True
    define s2 where "s2 = fold (serveUnless sh) R s1"
    define s3 where "s3 = fold serve L s2"
    have i2: "walk_inv D s2"
      unfolding s2_def using i1 LR by (intro walk_inv_fold walk_inv_serveUnless)
    have i3: "walk_inv D s3"
      unfolding s3_def using i2 LR by (intro walk_inv_fold walk_inv_serve)
    have q3: "servedSeq s3 = servedSeq s1 @ filter (\<lambda>r. r \<noteq> sh) R @ L"
      by (simp add: s3_def s2_def servedSeq_fold_serve servedSeq_fold_serveUnless)
    have "distinct (servedSeq s3)"
      using S by (auto simp: q3 q1 L_def R_def)
    moreover have "(case L of [] \<Rightarrow> s2 | firstReq # others \<Rightarrow> fold serve others (serve firstReq s2)) = s3"
      by (cases L) (simp_all add: s3_def)
    then have "calculateCLookPath requests sh dir w = win s3"
      unfolding calculateCLookPath_def Let_def S_def [symmetric] L_def [symmetric]
        R_def [symmetric] s1_def [symmetric] s2_def [symmetric]
      using True by simp
    ultimately show ?thesis using i3 by blast
  next
    case False
    define s2 where "s2 = fold serve (rev L) s1"
    define s3 where "s3 = (if length R > 0
        then fold (serveUnless sh) (rev (butlast R)) (jumpToLast sh (last R) s2) else s2)"
    have i2: "walk_inv D s2"
      unfolding s2_def using i1 LR by (intro walk_inv_fold walk_inv_serve) auto
    have q2: "servedSeq s2 = servedSeq s1 @ rev L"
      by (simp add: s2_def servedSeq_fold_serve)
    have i3: "walk_inv D s3"
    proof (cases "R = []")
      case True
      then show ?thesis using i2 by (simp add: s3_def)
    next
      case nonempty: False
      then have "last R \<in> set R" by simp
      with LR have "0 \<le> last R" "last R \<le> D" by auto
      then have "walk_inv D (jumpToLast sh (last R) s2)"
        using i2 by (simp add: walk_inv_jumpToLast)
      moreover have "set (rev (butlast R)) \<subseteq> {0..D}"
        using LR by (auto dest: in_set_butlastD)
      ultimately have "walk_inv D (fold (serveUnless sh) (rev (butlast R)) (jumpToLast sh (last R) s2))"
        by (intro walk_inv_fold walk_inv_serveUnless)
      with nonempty show ?thesis by (simp add: s3_def)
    qed
    have q3: "servedSeq s3 = servedSeq s1 @ rev L @ filter (\<lambda>r. r \<noteq> sh) (rev R)"
    proof (cases "R = []")
      case True
      then show ?thesis by (simp add: s3_def q2)
    next
      case nonempty: False
      then have "rev R = rev (butlast R @ [last R])" by simp
      also have "\<dots> = last R # rev (butlast R)" by simp
      finally have revR: "rev R = last R # rev (butlast R)" .
      show ?thesis
        by (simp add: s3_def q2 servedSeq_fold_serveUnless servedSeq_jumpToLast nonempty revR)
    qed
    have "distinct (servedSeq s3)"
      using S by (auto simp: q3 q1 L_def R_def)
    moreover have "calculateCLookPath requests sh dir w = win s3"
      using False
      by (simp add: calculateCLookPath_def Let_def s3_def s2_def s1_def L_def R_def S_def)
    ultimately show ?thesis using i3 by blast
  qed
qed

lemma fold_fcfsVisit_serve:
  "set xs \<subseteq> set (originalRequestSet (win s)) \<Longrightarrow> fold fcfsVisit xs s = fold serve xs s"
  by (induction xs arbitrary: s) (simp_all add: fcfsVisit_member serve_sel)

lemma calculateFcfsPath_walk:
  assumes inv: "walk_inv D (startWalk sh w)" and range: "set requests \<subseteq> {0..D}"
    and fresh: "servedSeq (startWalk sh w) = []"
  shows "\<exists>s. calculateFcfsPath requests sh w = win s \<and> walk_inv D s \<and>
           (set requests \<subseteq> set (originalRequestSet w) \<longrightarrow> servedSeq s = requests)"
proof -
  define s1 where "s1 = fold fcfsVisit requests (startWalk sh w)"
  have "walk_inv D s1"
    unfolding s1_def using inv range by (intro walk_inv_fold walk_inv_fcfsVisit)
  moreover have "servedSeq s1 = requests" if "set requests \<subseteq> set (originalRequestSet w)"
    using that fresh by (simp add: s1_def fold_fcfsVisit_serve startWalk_sel servedSeq_fold_serve)
  moreover have "calculateFcfsPath requests sh w = win s1"
    by (simp add: calculateFcfsPath_def s1_def)
  ultimately show ?thesis by blast
qed

lemma calculateSstfPath_walk:
  assumes inv: "walk_inv D (startWalk sh w)" and range: "set requests \<subseteq> {0..D}"
    and fresh: "servedSeq (startWalk sh w) = []"
  shows "\<exists>s. calculateSstfPath requests sh w = win s \<and> walk_inv D s \<and> distinct (servedSeq s)"
proof -
  define rem0 where "rem0 = new_Set requests"
  define s1 where "s1 = (if sh \<in> set rem0
      then sstfPathLoop (set_delete sh rem0) (serveAtStart sh (startWalk sh w))
      else sstfPathLoop rem0 (startWalk sh w))"
  have rem0: "set rem0 \<subseteq> {0..D}" "distinct rem0"
    using range by (simp_all add: rem0_def set_new_Set distinct_new_Set)
  have "walk_inv D s1"
  proof (cases "sh \<in> set rem0")
    case True
    have "walk_inv D (sstfPathLoop (set_delete sh rem0) (serveAtStart sh (startWalk sh w)))"
      using inv rem0 by (intro walk_inv_sstfPathLoop walk_inv_serveAtStart) (auto simp: set_delete_def)
    with True show ?thesis by (simp add: s1_def)
  next
    case False
    have "walk_inv D (sstfPathLoop rem0 (startWalk sh w))"
      using inv rem0 by (intro walk_inv_sstfPathLoop)
    with False show ?thesis by (simp add: s1_def)
  qed
  moreover have "distinct (servedSeq s1)"
  proof (cases "sh \<in> set rem0")
    case True
    have "distinct (servedSeq (sstfPathLoop (set_delete sh rem0) (serveAtStart sh (startWalk sh w))))"
      using rem0 fresh
      by (intro servedSeq_sstfPathLoop) (auto simp: set_delete_def serveAtStart_sel distinct_removeAll)
    with True show ?thesis by (simp add: s1_def)
  next
    case False
    have "distinct (servedSeq (sstfPathLoop rem0 (startWalk sh w)))"
      using rem0 fresh by (intro servedSeq_sstfPathLoop) auto
    with False show ?thesis by (simp add: s1_def)
  qed
  moreover have "calculateSstfPath requests sh w = win s1"
    by (simp add: calculateSstfPath_def Let_def s1_def rem0_def set_has_def)
  ultimately show ?thesis by blast
qed

lemma algorithm_cases:
  fixes algorithm :: string
  obtains "algorithm = ''fcfs''" | "algorithm = ''sstf''" | "algorithm = ''scan''"
    | "algorithm = ''c-scan''" | "algorithm = ''look''" | "algorithm = ''c-look''"
    | "algorithm \<noteq> ''fcfs''" "algorithm \<noteq> ''sstf''" "algorithm \<noteq> ''scan''"
      "algorithm \<noteq> ''c-scan''" "algorithm \<noteq> ''look''" "algorithm \<noteq> ''c-look''"
  by argo

lemma simulationRun_walk:
  assumes head: "0 \<le> sh" "sh \<le> DISK_MAX w" and range: "set requests \<subseteq> {0..DISK_MAX w}"
  shows "\<exists>s. simulationRun algorithm requests sh dir w = hist s @ [last (hist s)] \<and>
           walk_inv (DISK_MAX w) s \<and>
           (algorithm \<noteq> ''fcfs'' \<or> distinct requests \<longrightarrow> distinct (servedSeq s))"
proof -
  define ors where "ors = (if algorithm = ''fcfs'' then new_Set requests
                     else new_Set (sort (new_Set requests)))"
  define w3 where "w3 = addHistoryStep sh 0 [] []
      (w\<lparr>history := [], currentStateIndex := 0, originalRequestSet := ors\<rparr>)"
  define w4 where "w4 =
     (if algorithm = ''fcfs'' then calculateFcfsPath requests sh w3
      else if algorithm = ''sstf'' then calculateSstfPath requests sh w3
      else if algorithm = ''scan'' then calculateScanPath requests sh dir w3
      else if algorithm = ''c-scan'' then calculateCScanPath requests sh dir w3
      else if algorithm = ''look'' then calculateLookPath requests sh dir w3
      else if algorithm = ''c-look'' then calculateCLookPath requests sh dir w3
      else w3)"
  let ?D = "DISK_MAX w"
  have inv: "walk_inv ?D (startWalk sh w3)"
    unfolding w3_def using head by (rule walk_inv_startWalk)
  have fresh: "servedSeq (startWalk sh w3) = []"
    by (simp add: startWalk_sel)
  have ors: "algorithm = ''fcfs'' \<Longrightarrow> set requests \<subseteq> set (originalRequestSet w3)"
    by (simp add: w3_def ors_def addHistoryStep_def set_new_Set)
  have "\<exists>s. w4 = win s \<and> walk_inv ?D s \<and>
           (algorithm \<noteq> ''fcfs'' \<or> distinct requests \<longrightarrow> distinct (servedSeq s))"
  proof -
    show ?thesis
    proof (cases rule: algorithm_cases [of algorithm])
      case 1
      from calculateFcfsPath_walk [OF inv range fresh] ors [OF 1]
      obtain s where "calculateFcfsPath requests sh w3 = win s" "walk_inv ?D s"
        "servedSeq s = requests" by blast
      with 1 show ?thesis by (auto simp: w4_def)
    next
      case 2
      from calculateSstfPath_walk [OF inv range fresh]
      obtain s where "calculateSstfPath requests sh w3 = win s" "walk_inv ?D s"
        "distinct (servedSeq s)" by blast
      with 2 show ?thesis by (auto simp: w4_def)
    next
      case 3
      from calculateScanPath_walk [OF inv range fresh, of dir]
      obtain s where "calculateScanPath requests sh dir w3 = win s" "walk_inv ?D s"
        "distinct (servedSeq s)" by blast
      with 3 show ?thesis by (auto simp: w4_def)
    next
      case 4
      from calculateCScanPath_walk [OF inv range fresh, of dir]
      obtain s where "calculateCScanPath requests sh dir w3 = win s" "walk_inv ?D s"
        "distinct (servedSeq s)" by blast
      with 4 show ?thesis by (auto simp: w4_def)
    next
      case 5
      from calculateLookPath_walk [OF inv range fresh, of dir]
      obtain s where "calculateLookPath requests sh dir w3 = win s" "walk_inv ?D s"
        "distinct (servedSeq s)" by blast
      with 5 show ?thesis by (auto simp: w4_def)
    next
      case 6
      from calculateCLookPath_walk [OF inv range fresh, of dir]
      obtain s where "calculateCLookPath requests sh dir w3 = win s" "walk_inv ?D s"
        "distinct (servedSeq s)" by blast
      with 6 show ?thesis by (auto simp: w4_def)
    next
      case 7
      then have "w4 = win (startWalk sh w3)" by (simp add: w4_def startWalk_sel)
      moreover from fresh have "distinct (servedSeq (startWalk sh w3))" by simp
      ultimately show ?thesis using inv by blast
    qed
  qed
  then obtain s where s: "w4 = win s" "walk_inv ?D s"
    "algorithm \<noteq> ''fcfs'' \<or> distinct requests \<longrightarrow> distinct (servedSeq s)" by blast
  from s(2) have "hist s \<noteq> []" by (simp add: walk_inv_def)
  with s(1) have nonempty: "0 < length (history w4)" by simp
  have "simulationRun algorithm requests sh dir w = history w4 @ [last (history w4)]"
    unfolding simulationRun_def calculateSimulationHistory_def Let_def
    unfolding ors_def [symmetric] w3_def [symmetric] w4_def [symmetric]
    using nonempty by simp
  with s show ?thesis by auto
qed

subsection \<open>A walk only appends to the history\<close>

lemma grows_serve: "prefix h (hist s) \<Longrightarrow> prefix h (hist (serve r s))"
  by (simp add: serve_sel prefix_prefix)

lemma grows_serveUnless: "prefix h (hist s) \<Longrightarrow> prefix h (hist (serveUnless sh r s))"
  by (simp add: serveUnless_def grows_serve)

lemma grows_fcfsVisit: "prefix h (hist s) \<Longrightarrow> prefix h (hist (fcfsVisit r s))"
  by (simp add: fcfsVisit_def addHistoryStep_def Let_def prefix_prefix)

lemma grows_serveAtStart: "prefix h (hist s) \<Longrightarrow> prefix h (hist (serveAtStart sh s))"
  by (simp add: serveAtStart_sel prefix_prefix)

lemma grows_sweepTo: "prefix h (hist s) \<Longrightarrow> prefix h (hist (sweepTo b s))"
  by (simp add: sweepTo_sel prefix_prefix)

lemma grows_jumpTo: "prefix h (hist s) \<Longrightarrow> prefix h (hist (jumpTo b s))"
  by (simp add: jumpTo_sel prefix_prefix)

lemma grows_jumpToLast: "prefix h (hist s) \<Longrightarrow> prefix h (hist (jumpToLast sh r s))"
  by (simp add: jumpToLast_sel prefix_prefix)

lemma grows_fold:
  assumes "\<And>r s. prefix h (hist s) \<Longrightarrow> prefix h (hist (f r s))" and "prefix h (hist s)"
  shows "prefix h (hist (fold f xs s))"
  using assms(2) by (induction xs arbitrary: s) (simp_all add: assms(1))

lemma grows_sstfPathLoop:
  assumes "prefix h (hist s)"
  shows "prefix h (hist (sstfPathLoop remaining s))"
  using assms
proof (induction "length remaining" arbitrary: remaining s rule: less_induct)
  case less
  show ?case
  proof (cases "remaining = []")
    case True
    with less.prems show ?thesis by (simp add: sstfPathLoop_Nil)
  next
    case False
    from sstfPathLoop_step [OF False, of s] obtain n where
      mem: "n \<in> set remaining" and
      unfold: "sstfPathLoop remaining s = sstfPathLoop (set_delete n remaining) (serve n s)"
      by blast
    have shorter: "length (set_delete n remaining) < length remaining"
      using mem by (simp add: set_delete_def length_removeAll_less)
    from less.hyps [OF shorter grows_serve [OF less.prems]] unfold show ?thesis by simp
  qed
qed

lemmas grows = grows_serve grows_serveUnless grows_fcfsVisit grows_serveAtStart grows_sweepTo
  grows_jumpTo grows_jumpToLast grows_fold grows_sstfPathLoop

lemma grows_calculateFcfsPath:
  "prefix h (history w) \<Longrightarrow> prefix h (history (calculateFcfsPath requests sh w))"
  by (simp add: calculateFcfsPath_def startWalk_sel grows)

lemma grows_calculateSstfPath:
  "prefix h (history w) \<Longrightarrow> prefix h (history (calculateSstfPath requests sh w))"
  by (simp add: calculateSstfPath_def Let_def startWalk_sel grows)

lemma grows_calculateScanPath:
  "prefix h (history w) \<Longrightarrow> prefix h (history (calculateScanPath requests sh dir w))"
  by (simp add: calculateScanPath_def Let_def startWalk_sel grows)

lemma grows_calculateCScanPath:
  "prefix h (history w) \<Longrightarrow> prefix h (history (calculateCScanPath requests sh dir w))"
  by (simp add: calculateCScanPath_def Let_def startWalk_sel grows)

lemma grows_calculateLookPath:
  "prefix h (history w) \<Longrightarrow> prefix h (history (calculateLookPath requests sh dir w))"
  by (simp add: calculateLookPath_def Let_def startWalk_sel grows)

lemma grows_calculateCLookPath:
  "prefix h (history w) \<Longrightarrow> prefix h (history (calculateCLookPath requests sh dir w))"
  by (simp add: calculateCLookPath_def Let_def startWalk_sel grows split: list.split)

lemma simulationRun_shape:
  "\<exists>body. simulationRun algorithm requests sh dir w =
     (\<lparr>head = sh, seek = 0, served = [], servedOrder = []\<rparr> # body) @
     [last (\<lparr>head = sh, seek = 0, served = [], servedOrder = []\<rparr> # body)]"
proof -
  define ors where "ors = (if algorithm = ''fcfs'' then new_Set requests
                     else new_Set (sort (new_Set requests)))"
  define w3 where "w3 = addHistoryStep sh 0 [] []
      (w\<lparr>history := [], currentStateIndex := 0, originalRequestSet := ors\<rparr>)"
  define w4 where "w4 =
     (if algorithm = ''fcfs'' then calculateFcfsPath requests sh w3
      else if algorithm = ''sstf'' then calculateSstfPath requests sh w3
      else if algorithm = ''scan'' then calculateScanPath requests sh dir w3
      else if algorithm = ''c-scan'' then calculateCScanPath requests sh dir w3
      else if algorithm = ''look'' then calculateLookPath requests sh dir w3
      else if algorithm = ''c-look'' then calculateCLookPath requests sh dir w3
      else w3)"
  let ?first = "\<lparr>head = sh, seek = 0, served = [], servedOrder = []\<rparr>"
  have "prefix [?first] (history w3)"
    by (simp add: w3_def addHistoryStep_def)
  then have "prefix [?first] (history w4)"
    unfolding w4_def
    by (simp add: grows_calculateFcfsPath grows_calculateSstfPath grows_calculateScanPath
        grows_calculateCScanPath grows_calculateLookPath grows_calculateCLookPath)
  then obtain body where body: "history w4 = ?first # body"
    by (auto simp: prefix_def)
  then have nonempty: "0 < length (history w4)" by simp
  have "simulationRun algorithm requests sh dir w = history w4 @ [last (history w4)]"
    unfolding simulationRun_def calculateSimulationHistory_def Let_def
    unfolding ors_def [symmetric] w3_def [symmetric] w4_def [symmetric]
    using nonempty by simp
  with body show ?thesis by simp
qed

subsection \<open>The steps of a row of served requests\<close>

lemma synced_serve: "synced (serve r s)"
  by (simp add: synced_def serve_sel)

lemma synced_fold_serve: "synced s \<Longrightarrow> synced (fold serve xs s)"
  by (induction xs arbitrary: s) (simp_all add: synced_serve)

lemma length_hist_fold_serve: "length (hist (fold serve xs s)) = length (hist s) + length xs"
  by (induction xs arbitrary: s) (simp_all add: serve_sel)

lemma servedSet_fold_serve: "servedSet (fold serve xs s) = fold set_add xs (servedSet s)"
  by (induction xs arbitrary: s) (simp_all add: serve_sel)

lemma hist_fold_serve_nth:
  fixes xs :: "int list" and s :: walk
  assumes "k < length xs"
  defines "sk \<equiv> fold serve (take k xs) s"
  shows "hist (fold serve xs s) ! (length (hist s) + k) =
           \<lparr>head = xs ! k, seek = totalSeek sk + \<bar>xs ! k - currentHead sk\<bar>,
            served = fold set_add (take (Suc k) xs) (servedSet s),
            servedOrder = servedSeq s @ take (Suc k) xs\<rparr>"
    and "take (length (hist s) + k) (hist (fold serve xs s)) = hist sk"
proof -
  from assms(1) have split: "xs = take k xs @ xs ! k # drop (Suc k) xs"
    by (simp add: id_take_nth_drop)
  have len: "length (hist sk) = length (hist s) + k"
    using assms(1) by (simp add: sk_def length_hist_fold_serve)
  have "fold serve xs s = fold serve (take k xs @ xs ! k # drop (Suc k) xs) s"
    using split by simp
  also have "\<dots> = fold serve (drop (Suc k) xs) (serve (xs ! k) sk)"
    by (simp add: sk_def)
  finally have whole: "fold serve xs s = fold serve (drop (Suc k) xs) (serve (xs ! k) sk)" .
  have "prefix (hist (serve (xs ! k) sk)) (hist (fold serve (drop (Suc k) xs) (serve (xs ! k) sk)))"
    by (rule grows_fold) (simp_all add: grows_serve)
  then obtain rest where rest: "hist (fold serve xs s) = hist (serve (xs ! k) sk) @ rest"
    unfolding whole by (auto simp: prefix_def)
  have st: "hist (serve (xs ! k) sk) = hist sk @
      [\<lparr>head = xs ! k, seek = totalSeek sk + \<bar>xs ! k - currentHead sk\<bar>,
        served = set_add (xs ! k) (servedSet sk), servedOrder = servedSeq sk @ [xs ! k]\<rparr>]"
    by (simp add: serve_sel)
  have order: "servedSeq sk @ [xs ! k] = servedSeq s @ take (Suc k) xs"
    using assms(1) by (simp add: sk_def servedSeq_fold_serve take_Suc_conv_app_nth)
  have sets: "set_add (xs ! k) (servedSet sk) = fold set_add (take (Suc k) xs) (servedSet s)"
    using assms(1) by (simp add: sk_def servedSet_fold_serve take_Suc_conv_app_nth)
  show "hist (fold serve xs s) ! (length (hist s) + k) =
           \<lparr>head = xs ! k, seek = totalSeek sk + \<bar>xs ! k - currentHead sk\<bar>,
            served = fold set_add (take (Suc k) xs) (servedSet s),
            servedOrder = servedSeq s @ take (Suc k) xs\<rparr>"
    using len by (simp add: rest st order sets nth_append)
  show "take (length (hist s) + k) (hist (fold serve xs s)) = hist sk"
    using len by (simp add: rest st)
qed

lemma simulationRun_fcfs:
  "\<exists>s0. hist s0 = [\<lparr>head = sh, seek = 0, served = [], servedOrder = []\<rparr>] \<and>
        currentHead s0 = sh \<and> totalSeek s0 = 0 \<and> servedSet s0 = [] \<and> servedSeq s0 = [] \<and>
        simulationRun ''fcfs'' requests sh dir w =
          hist (fold serve requests s0) @ [last (hist (fold serve requests s0))]"
proof -
  define w3 where "w3 = addHistoryStep sh 0 [] []
      (w\<lparr>history := [], currentStateIndex := 0, originalRequestSet := new_Set requests\<rparr>)"
  define s0 where "s0 = startWalk sh w3"
  have ors: "set requests \<subseteq> set (originalRequestSet (win s0))"
    by (simp add: s0_def w3_def startWalk_sel addHistoryStep_def set_new_Set)
  have h0: "hist s0 = [\<lparr>head = sh, seek = 0, served = [], servedOrder = []\<rparr>]"
    by (simp add: s0_def w3_def startWalk_sel addHistoryStep_def)
  have "prefix (hist s0) (hist (fold serve requests s0))"
    by (rule grows_fold) (simp_all add: grows_serve)
  with h0 have nonempty: "0 < length (hist (fold serve requests s0))"
    by (auto simp: prefix_def)
  have "calculateFcfsPath requests sh w3 = win (fold serve requests s0)"
    by (simp add: calculateFcfsPath_def s0_def [symmetric] fold_fcfsVisit_serve [OF ors])
  then have "simulationRun ''fcfs'' requests sh dir w =
      hist (fold serve requests s0) @ [last (hist (fold serve requests s0))]"
    using nonempty
    by (simp add: simulationRun_def calculateSimulationHistory_def Let_def w3_def [symmetric])
  with h0 show ?thesis
    by (intro exI [of _ s0]) (simp add: s0_def startWalk_sel)
qed

subsection \<open>Tokens outside the known ones, and the empty list\<close>

lemma direction_calculateScanPath:
  "dir \<noteq> ''right'' \<Longrightarrow> calculateScanPath requests sh dir w = calculateScanPath requests sh ''left'' w"
  by (simp add: calculateScanPath_def)

lemma direction_calculateCScanPath:
  "dir \<noteq> ''right'' \<Longrightarrow> calculateCScanPath requests sh dir w = calculateCScanPath requests sh ''left'' w"
  by (simp add: calculateCScanPath_def)

lemma direction_calculateLookPath:
  "dir \<noteq> ''right'' \<Longrightarrow> calculateLookPath requests sh dir w = calculateLookPath requests sh ''left'' w"
  by (simp add: calculateLookPath_def)

lemma direction_calculateCLookPath:
  "dir \<noteq> ''right'' \<Longrightarrow> calculateCLookPath requests sh dir w = calculateCLookPath requests sh ''left'' w"
  by (simp add: calculateCLookPath_def)

lemma direction_calculateSimulationHistory:
  "dir \<noteq> ''right'' \<Longrightarrow> calculateSimulationHistory algorithm requests sh dir w
     = calculateSimulationHistory algorithm requests sh ''left'' w"
  by (simp add: calculateSimulationHistory_def Let_def direction_calculateScanPath [of dir]
      direction_calculateCScanPath [of dir] direction_calculateLookPath [of dir]
      direction_calculateCLookPath [of dir])

lemma direction_statsScan:
  "dir \<noteq> ''right'' \<Longrightarrow> statsScan d reqCopy h dir = statsScan d reqCopy h ''left''"
  by (simp add: statsScan_def)

lemma direction_statsCScan:
  "dir \<noteq> ''right'' \<Longrightarrow> statsCScan d reqCopy h dir = statsCScan d reqCopy h ''left''"
  by (simp add: statsCScan_def)

lemma direction_statsLook:
  "dir \<noteq> ''right'' \<Longrightarrow> statsLook reqCopy h dir = statsLook reqCopy h ''left''"
  by (simp add: statsLook_def)

lemma direction_statsCLook:
  "dir \<noteq> ''right'' \<Longrightarrow> statsCLook reqCopy h dir = statsCLook reqCopy h ''left''"
  by (simp add: statsCLook_def)

lemma direction_getAlgorithmStats:
  "dir \<noteq> ''right'' \<Longrightarrow> getAlgorithmStats algorithm requests sh dir w
     = getAlgorithmStats algorithm requests sh ''left'' w"
  by (simp add: getAlgorithmStats_def Let_def direction_statsScan [of dir]
      direction_statsCScan [of dir] direction_statsLook [of dir] direction_statsCLook [of dir])

lemma unknown_calculateSimulationHistory:
  assumes "algorithm \<notin> {''fcfs'', ''sstf'', ''scan'', ''c-scan'', ''look'', ''c-look''}"
  shows "calculateSimulationHistory algorithm requests sh dir w =
     (True, w\<lparr>history := [\<lparr>head = sh, seek = 0, served = [], servedOrder = []\<rparr>,
                          \<lparr>head = sh, seek = 0, served = [], servedOrder = []\<rparr>],
              currentStateIndex := 0,
              originalRequestSet := new_Set (sort (new_Set requests))\<rparr>)"
  using assms by (simp add: calculateSimulationHistory_def addHistoryStep_def)

lemma unknown_getAlgorithmStats:
  assumes "algorithm \<notin> {''fcfs'', ''sstf'', ''scan'', ''c-scan'', ''look'', ''c-look''}"
  shows "getAlgorithmStats algorithm requests sh dir w = 0"
  using assms by (simp add: getAlgorithmStats_def)

lemma empty_simulationRun:
  assumes "algorithm \<in> {''fcfs'', ''sstf'', ''look'', ''c-look''}"
  shows "simulationRun algorithm [] sh dir w =
     [\<lparr>head = sh, seek = 0, served = [], servedOrder = []\<rparr>,
      \<lparr>head = sh, seek = 0, served = [], servedOrder = []\<rparr>]"
  using assms by (elim insertE emptyE; simp add: engine_defs)

lemma empty_getAlgorithmStats:
  assumes "algorithm \<in> {''fcfs'', ''sstf'', ''look'', ''c-look''}"
  shows "getAlgorithmStats algorithm [] sh dir w = 0"
  using assms by (elim insertE emptyE; simp add: engine_defs)

subsection \<open>The iteration order of a set\<close>

lemma fold_set_add_acc:
  "fold set_add xs acc = acc @ filter (\<lambda>y. y \<notin> set acc) (new_Set xs)"
proof (induction xs arbitrary: acc)
  case Nil
  then show ?case by (simp add: new_Set_def)
next
  case (Cons x xs)
  have single: "set_add x [] = [x]" by (simp add: set_add_def)
  have head: "new_Set (x # xs) = x # filter (\<lambda>y. y \<noteq> x) (new_Set xs)"
    using Cons.IH [of "[x]"] by (simp add: new_Set_def single)
  show ?case
  proof (cases "x \<in> set acc")
    case True
    then have "set_add x acc = acc" by (simp add: set_add_def)
    then have "fold set_add (x # xs) acc = fold set_add xs acc"
      by simp
    also have "\<dots> = acc @ filter (\<lambda>y. y \<notin> set acc) (new_Set xs)"
      by (rule Cons.IH)
    also have "filter (\<lambda>y. y \<notin> set acc) (new_Set xs)
        = filter (\<lambda>y. y \<notin> set acc) (new_Set (x # xs))"
      using True by (auto simp: head intro: filter_cong)
    finally show ?thesis .
  next
    case False
    then have "set_add x acc = acc @ [x]" by (simp add: set_add_def)
    then have "fold set_add (x # xs) acc = fold set_add xs (acc @ [x])"
      by simp
    also have "\<dots> = (acc @ [x]) @ filter (\<lambda>y. y \<notin> set (acc @ [x])) (new_Set xs)"
      by (rule Cons.IH)
    also have "\<dots> = acc @ filter (\<lambda>y. y \<notin> set acc) (new_Set (x # xs))"
      using False by (auto simp: head intro: filter_cong)
    finally show ?thesis .
  qed
qed

lemma new_Set_Cons: "new_Set (x # xs) = x # filter (\<lambda>y. y \<noteq> x) (new_Set xs)"
proof -
  have "set_add x [] = [x]" by (simp add: set_add_def)
  with fold_set_add_acc [of xs "[x]"] show ?thesis by (simp add: new_Set_def)
qed

lemma set_delete_filter: "set_delete n remaining = filter (\<lambda>y. y \<noteq> n) remaining"
  by (induction remaining) (simp_all add: set_delete_def)

lemma start_not_in_set:
  "sh \<notin> set requests \<Longrightarrow> filter (\<lambda>y. y \<noteq> sh) (new_Set requests) = new_Set requests"
  by (rule filter_True) (auto simp: set_new_Set)

subsection \<open>Sorted lists and their ends\<close>

lemma sorted_le_last: "sorted xs \<Longrightarrow> x \<in> set xs \<Longrightarrow> x \<le> last xs"
  by (induction xs) auto

lemma sorted_hd_le: "sorted xs \<Longrightarrow> x \<in> set xs \<Longrightarrow> hd xs \<le> x"
  by (cases xs) auto

lemma sorted_last_greatest:
  fixes xs :: "int list"
  assumes "sorted xs" "m \<in> set xs" "\<forall>x\<in>set xs. x \<le> m"
  shows "last xs = m"
proof -
  from assms(2) have "xs \<noteq> []" by auto
  then have "last xs \<in> set xs" by simp
  with assms(3) have "last xs \<le> m" by blast
  moreover from assms(1,2) have "m \<le> last xs" by (rule sorted_le_last)
  ultimately show ?thesis by simp
qed

lemma sorted_hd_least:
  fixes xs :: "int list"
  assumes "sorted xs" "m \<in> set xs" "\<forall>x\<in>set xs. m \<le> x"
  shows "hd xs = m"
proof -
  from assms(2) have "xs \<noteq> []" by auto
  then have "hd xs \<in> set xs" by simp
  with assms(3) have "m \<le> hd xs" by blast
  moreover from assms(1,2) have "hd xs \<le> m" by (rule sorted_hd_le)
  ultimately show ?thesis by simp
qed

text \<open>The two sides of the sorted requests when they reach both ends of the disk.\<close>

lemma sides_at_boundaries:
  fixes requests :: "int list"
  assumes nonempty: "requests \<noteq> []" and least: "Min (set requests) = 0"
    and greatest: "Max (set requests) = D" and head: "0 \<le> sh" "sh \<le> D"
  defines "S \<equiv> sort (new_Set requests)"
  defines "L \<equiv> filter (\<lambda>r. r < sh) S" and "R \<equiv> filter (\<lambda>r. r \<ge> sh) S"
  shows "R \<noteq> []" "last R = D" "L \<noteq> [] \<Longrightarrow> hd L = 0" "L = [] \<Longrightarrow> sh = 0"
    "D = sh \<Longrightarrow> filter (\<lambda>r. r \<noteq> sh) R = []"
    "D \<noteq> sh \<Longrightarrow> filter (\<lambda>r. r \<noteq> sh) R \<noteq> [] \<and> last (filter (\<lambda>r. r \<noteq> sh) R) = D"
proof -
  have fin: "finite (set requests)" "set requests \<noteq> {}"
    using nonempty by simp_all
  have zero: "0 \<in> set S" and top: "D \<in> set S"
    using Min_in [OF fin] Max_in [OF fin] least greatest
    by (simp_all add: S_def set_new_Set)
  have range: "\<forall>x\<in>set S. 0 \<le> x \<and> x \<le> D"
    using Min_le [OF fin(1)] Max_ge [OF fin(1)] least greatest
    by (auto simp: S_def set_new_Set)
  have sorted: "sorted S" by (simp add: S_def)
  have sortedR: "sorted R" and sortedL: "sorted L"
    using sorted by (simp_all add: R_def L_def sorted_wrt_filter)
  from top head have topR: "D \<in> set R" by (simp add: R_def)
  then show "R \<noteq> []" by auto
  from range have "\<forall>x\<in>set R. x \<le> D" by (simp add: R_def)
  with sortedR topR show lastR: "last R = D" by (rule sorted_last_greatest)
  show "hd L = 0" if "L \<noteq> []"
  proof -
    from that have "hd L \<in> set L" by simp
    then have "hd L < sh" "0 \<le> hd L" using range by (auto simp: L_def)
    then have "0 \<in> set L" using zero by (simp add: L_def)
    moreover from range have "\<forall>x\<in>set L. 0 \<le> x" by (simp add: L_def)
    ultimately show ?thesis using sortedL by (intro sorted_hd_least)
  qed
  show "sh = 0" if "L = []"
  proof -
    from that zero have "\<not> 0 < sh" by (auto simp: L_def filter_empty_conv)
    with head show ?thesis by simp
  qed
  show "filter (\<lambda>r. r \<noteq> sh) R = []" if "D = sh"
    using range that by (auto simp: R_def filter_empty_conv)
  show "filter (\<lambda>r. r \<noteq> sh) R \<noteq> [] \<and> last (filter (\<lambda>r. r \<noteq> sh) R) = D" if "D \<noteq> sh"
  proof -
    let ?F = "filter (\<lambda>r. r \<noteq> sh) R"
    from topR that have mem: "D \<in> set ?F" by simp
    moreover have "sorted ?F" using sortedR by (simp add: sorted_wrt_filter)
    moreover have "\<forall>x\<in>set ?F. x \<le> D" using range by (simp add: R_def)
    ultimately have "last ?F = D" by (intro sorted_last_greatest)
    moreover from mem have "?F \<noteq> []" by (metis empty_iff list.set(1))
    ultimately show ?thesis by simp
  qed
qed

lemma statsScan_eq_statsLook:
  fixes requests :: "int list"
  assumes "requests \<noteq> []" "Min (set requests) = 0" "Max (set requests) = D"
    and "0 \<le> sh" "sh \<le> D"
  shows "statsScan D (new_Set requests) sh dir = statsLook (new_Set requests) sh dir"
proof -
  define S where "S = sort (new_Set requests)"
  define L where "L = filter (\<lambda>r. r < sh) S"
  define R where "R = filter (\<lambda>r. r \<ge> sh) S"
  note sides = sides_at_boundaries [OF assms, folded S_def, folded L_def R_def]
  show ?thesis
  proof (cases "L = []")
    case True
    with sides(4) have "sh = 0" by simp
    with True sides(1,2) show ?thesis
      unfolding statsScan_def statsLook_def Let_def S_def [symmetric]
        L_def [symmetric] R_def [symmetric]
      by simp
  next
    case False
    with sides(3) have "hd L = 0" by simp
    with False sides(1,2) show ?thesis
      unfolding statsScan_def statsLook_def Let_def S_def [symmetric]
        L_def [symmetric] R_def [symmetric]
      by simp
  qed
qed

lemma fold_serveUnless: "fold (serveUnless sh) xs s = fold serve (filter (\<lambda>r. r \<noteq> sh) xs) s"
  by (induction xs arbitrary: s) (simp_all add: serveUnless_def)

lemma currentHead_fold_serve:
  "currentHead (fold serve xs s) = (if xs = [] then currentHead s else last xs)"
  by (induction xs arbitrary: s) (simp_all add: serve_sel)

lemma calculateScanPath_eq_calculateLookPath:
  fixes requests :: "int list"
  assumes "requests \<noteq> []" "Min (set requests) = 0" "Max (set requests) = DISK_MAX w"
    and "0 \<le> sh" "sh \<le> DISK_MAX w"
  shows "calculateScanPath requests sh dir w = calculateLookPath requests sh dir w"
proof -
  define S where "S = sort (new_Set requests)"
  define L where "L = filter (\<lambda>r. r < sh) S"
  define R where "R = filter (\<lambda>r. r \<ge> sh) S"
  define s1 where "s1 = (if sh \<in> set S then serveAtStart sh (startWalk sh w) else startWalk sh w)"
  note sides = sides_at_boundaries [OF assms, folded S_def, folded L_def R_def]
  have head1: "currentHead s1 = sh"
    by (simp add: s1_def serveAtStart_sel startWalk_sel)
  have disk1: "DISK_MAX (win s1) = DISK_MAX w"
    by (simp add: s1_def serveAtStart_sel startWalk_sel)
  have right: "currentHead (fold (serveUnless sh) R s1) = DISK_MAX (win (fold (serveUnless sh) R s1))"
  proof (cases "DISK_MAX w = sh")
    case True
    with sides(5) show ?thesis
      by (simp add: fold_serveUnless head1 disk1)
  next
    case False
    with sides(6) show ?thesis
      by (simp add: fold_serveUnless currentHead_fold_serve DISK_MAX_fold_serve disk1)
  qed
  have left: "currentHead (fold serve (rev L) s1) = 0"
  proof (cases "L = []")
    case True
    with sides(4) show ?thesis by (simp add: head1)
  next
    case False
    with sides(3) show ?thesis by (simp add: currentHead_fold_serve last_rev)
  qed
  show ?thesis
    unfolding calculateScanPath_def calculateLookPath_def Let_def S_def [symmetric]
      L_def [symmetric] R_def [symmetric] s1_def [symmetric]
    by (simp add: right left)
qed

subsection \<open>The seek total of a row of served requests\<close>

lemma totalSeek_fold_serve:
  "totalSeek (fold serve xs s) = totalSeek s + pathLen (currentHead s) xs"
  by (induction xs arbitrary: s) (simp_all add: serve_sel)

lemma pathLen_append: "pathLen c (xs @ ys) = pathLen c xs + pathLen (last (c # xs)) ys"
  by (induction xs arbitrary: c) simp_all

lemma pathLen_up:
  "sorted xs \<Longrightarrow> \<forall>x\<in>set xs. c \<le> x \<Longrightarrow> pathLen c xs = last (c # xs) - c"
proof (induction xs arbitrary: c)
  case Nil
  then show ?case by simp
next
  case (Cons x xs)
  then have "pathLen x xs = last (x # xs) - x" by simp
  with Cons.prems show ?case by simp
qed

lemma pathLen_down:
  "sorted xs \<Longrightarrow> \<forall>x\<in>set xs. x \<le> c \<Longrightarrow> pathLen c (rev xs) = c - hd (xs @ [c])"
proof (induction xs)
  case Nil
  then show ?case by simp
next
  case (Cons x xs)
  then have rest: "pathLen c (rev xs) = c - hd (xs @ [c])" by simp
  show ?case
  proof (cases "xs = []")
    case True
    with Cons.prems show ?thesis by simp
  next
    case False
    then have "hd xs \<in> set xs" by simp
    with Cons.prems have "x \<le> hd xs" by simp
    with False rest show ?thesis
      by (simp add: pathLen_append last_rev)
  qed
qed

lemma synced_fold_serveUnless: "synced s \<Longrightarrow> synced (fold (serveUnless sh) xs s)"
  by (simp add: fold_serveUnless synced_fold_serve)

lemma synced_sweepTo: "synced (sweepTo b s)"
  by (simp add: synced_def sweepTo_sel)

lemma synced_jumpTo: "synced (jumpTo b s)"
  by (simp add: synced_def jumpTo_sel)

lemma synced_serveAtStart: "synced s \<Longrightarrow> synced (serveAtStart sh s)"
  by (simp add: synced_def serveAtStart_sel)

lemma last_filter_keeps:
  "xs \<noteq> [] \<Longrightarrow> P (last xs) \<Longrightarrow> last (filter P xs) = last xs"
  by (induction xs) (auto simp: filter_empty_conv)

text \<open>The sorted requests below the start, from the start on, and above it.\<close>

lemma sides:
  fixes requests :: "int list" and sh D :: int
  assumes range: "set requests \<subseteq> {0..D}"
  defines "S \<equiv> sort (new_Set requests)"
  defines "L \<equiv> filter (\<lambda>r. r < sh) S" and "R \<equiv> filter (\<lambda>r. r \<ge> sh) S"
  defines "A \<equiv> filter (\<lambda>r. r \<noteq> sh) R"
  shows "sorted L" "sorted R" "sorted A"
    "\<forall>x\<in>set L. 0 \<le> x \<and> x < sh \<and> x \<le> D" "\<forall>x\<in>set R. 0 \<le> x \<and> sh \<le> x \<and> x \<le> D"
    "\<forall>x\<in>set A. 0 \<le> x \<and> sh < x \<and> x \<le> D"
    "R \<noteq> [] \<Longrightarrow> last R = (if A = [] then sh else last A)"
    "R = [] \<Longrightarrow> A = []"
    "sh \<notin> set requests \<Longrightarrow> A = R"
proof -
  have S: "sorted S" "set S = set requests"
    by (simp_all add: S_def set_new_Set)
  show sL: "sorted L" and sR: "sorted R" and sA: "sorted A"
    using S(1) by (simp_all add: L_def R_def A_def sorted_wrt_filter)
  show "\<forall>x\<in>set L. 0 \<le> x \<and> x < sh \<and> x \<le> D" and inR: "\<forall>x\<in>set R. 0 \<le> x \<and> sh \<le> x \<and> x \<le> D"
    and inA: "\<forall>x\<in>set A. 0 \<le> x \<and> sh < x \<and> x \<le> D"
    using range S(2) by (auto simp: L_def R_def A_def)
  show "last R = (if A = [] then sh else last A)" if "R \<noteq> []"
  proof (cases "A = []")
    case True
    then have "\<forall>x\<in>set R. x = sh" by (auto simp: A_def filter_empty_conv)
    moreover from that have "last R \<in> set R" by simp
    ultimately show ?thesis using True by simp
  next
    case False
    then have "last A \<in> set A" by simp
    with inA have above: "sh < last A" and "last A \<in> set R" by (auto simp: A_def)
    with sR have "last A \<le> last R" by (intro sorted_le_last)
    with above have "last R \<noteq> sh" by simp
    with that have "last A = last R"
      unfolding A_def by (intro last_filter_keeps)
    with False show ?thesis by simp
  qed
  show "A = []" if "R = []"
    using that by (simp add: A_def)
  show "A = R" if "sh \<notin> set requests"
  proof -
    from that S(2) have "\<forall>x\<in>set R. x \<noteq> sh" by (auto simp: R_def)
    then show ?thesis unfolding A_def by (rule filter_True)
  qed
qed

subsection \<open>The totals of the sweeping walks and of the stats calculator\<close>

lemma calculateScanPath_total:
  fixes requests :: "int list"
  assumes range: "set requests \<subseteq> {0..D}" and head: "0 \<le> sh" "sh \<le> D"
    and disk: "DISK_MAX w = D" and start: "synced (startWalk sh w)"
    and side: "dir = ''right'' \<or> sh \<notin> set requests"
  shows "\<exists>s. calculateScanPath requests sh dir w = win s \<and> synced s \<and>
           totalSeek s = statsScan D (new_Set requests) sh dir"
proof -
  define S where "S = sort (new_Set requests)"
  define L where "L = filter (\<lambda>r. r < sh) S"
  define R where "R = filter (\<lambda>r. r \<ge> sh) S"
  define A where "A = filter (\<lambda>r. r \<noteq> sh) R"
  define s1 where "s1 = (if sh \<in> set S then serveAtStart sh (startWalk sh w) else startWalk sh w)"
  note sd = sides [OF range, of sh, folded S_def, folded L_def R_def, folded A_def]
  have s1: "totalSeek s1 = 0" "currentHead s1 = sh" "synced s1" "DISK_MAX (win s1) = D"
    using start disk by (simp_all add: s1_def serveAtStart_sel startWalk_sel synced_serveAtStart)
  show ?thesis
  proof (cases "dir = ''right''")
    case True
    define s2 where "s2 = fold (serveUnless sh) R s1"
    define s3 where "s3 = (if currentHead s2 \<noteq> D then sweepTo D s2 else s2)"
    define s4 where "s4 = fold serve (rev L) s3"
    have s2: "s2 = fold serve A s1"
      by (simp add: s2_def A_def fold_serveUnless)
    have h2: "currentHead s2 = last (sh # A)"
      by (simp add: s2 currentHead_fold_serve s1)
    have "\<forall>x\<in>set A. sh \<le> x" using sd(6) by auto
    with sd(3) have "pathLen sh A = last (sh # A) - sh" by (rule pathLen_up)
    then have t2: "totalSeek s2 = last (sh # A) - sh"
      by (simp add: s2 totalSeek_fold_serve s1)
    have d2: "DISK_MAX (win s2) = D"
      by (simp add: s2 DISK_MAX_fold_serve s1)
    have le2: "last (sh # A) \<le> D"
      using sd(6) head by (cases "A = []") (simp_all add: last_in_set)
    have h3: "currentHead s3 = D"
      by (simp add: s3_def sweepTo_sel)
    have t3: "totalSeek s3 = D - sh"
      using le2 by (simp add: s3_def sweepTo_sel t2 h2)
    have y3: "synced s3"
      using s1(3) by (simp add: s3_def synced_sweepTo s2 synced_fold_serve)
    have "\<forall>x\<in>set L. x \<le> D" using sd(4) by auto
    with sd(1) have "pathLen D (rev L) = D - hd (L @ [D])" by (rule pathLen_down)
    then have t4: "totalSeek s4 = D - sh + (D - hd (L @ [D]))"
      by (simp add: s4_def totalSeek_fold_serve h3 t3)
    have y4: "synced s4"
      using y3 by (simp add: s4_def synced_fold_serve)
    have gen: "calculateScanPath requests sh dir w = win s4"
      unfolding calculateScanPath_def Let_def S_def [symmetric] L_def [symmetric]
        R_def [symmetric] s1_def [symmetric] s2_def [symmetric]
      using True d2 by (simp add: s4_def s3_def)
    have endR: "(if R \<noteq> [] then last R else sh) = last (sh # A)"
      using sd(7,8) by (cases "R = []") simp_all
    have stats: "statsScan D (new_Set requests) sh dir = D - sh + (D - hd (L @ [D]))"
    proof -
      have "statsScan D (new_Set requests) sh dir =
          (let t1 = (if R \<noteq> [] then \<bar>last R - sh\<bar> else 0);
               h1 = (if R \<noteq> [] then last R else sh);
               t2 = t1 + \<bar>D - h1\<bar>
           in if L \<noteq> [] then t2 + \<bar>hd L - D\<bar> else t2)"
        unfolding statsScan_def Let_def S_def [symmetric] L_def [symmetric] R_def [symmetric]
        using True by simp
      also have "\<dots> = D - sh + (D - hd (L @ [D]))"
      proof -
        have up: "sh \<le> last (sh # A)"
          using sd(6) by (cases "A = []") (simp_all add: last_in_set less_imp_le)
        have t1: "(if R \<noteq> [] then \<bar>last R - sh\<bar> else 0) = last (sh # A) - sh"
          using sd(7,8) up by (cases "R = []") simp_all
        have low: "L \<noteq> [] \<Longrightarrow> hd L \<le> D"
          using sd(4) by (simp add: hd_in_set)
        show ?thesis
          unfolding Let_def t1 endR using le2 up low by (cases "L = []") simp_all
      qed
      finally show ?thesis .
    qed
    from gen y4 t4 stats show ?thesis by auto
  next
    case False
    with side have fresh: "sh \<notin> set requests" by simp
    with sd(9) have AR: "A = R" by simp
    define s2 where "s2 = fold serve (rev L) s1"
    define s3 where "s3 = (if currentHead s2 \<noteq> 0 then sweepTo 0 s2 else s2)"
    define s4 where "s4 = fold (serveUnless sh) R s3"
    have s4: "s4 = fold serve R s3"
      using AR by (simp add: s4_def fold_serveUnless A_def)
    have h2: "currentHead s2 = hd (L @ [sh])"
      by (cases "L = []") (simp_all add: s2_def currentHead_fold_serve s1 last_rev)
    have "\<forall>x\<in>set L. x \<le> sh" using sd(4) by auto
    with sd(1) have "pathLen sh (rev L) = sh - hd (L @ [sh])" by (rule pathLen_down)
    then have t2: "totalSeek s2 = sh - hd (L @ [sh])"
      by (simp add: s2_def totalSeek_fold_serve s1)
    have ge2: "0 \<le> hd (L @ [sh])"
      using sd(4) head by (cases "L = []") (simp_all add: hd_in_set)
    have h3: "currentHead s3 = 0"
      by (simp add: s3_def sweepTo_sel)
    have t3: "totalSeek s3 = sh"
      using ge2 by (simp add: s3_def sweepTo_sel t2 h2)
    have y3: "synced s3"
      using s1(3) by (simp add: s3_def synced_sweepTo s2_def synced_fold_serve)
    have "\<forall>x\<in>set R. 0 \<le> x" using sd(5) by auto
    with sd(2) have "pathLen 0 R = last (0 # R) - 0" by (rule pathLen_up)
    then have t4: "totalSeek s4 = sh + last (0 # R)"
      by (simp add: s4 totalSeek_fold_serve h3 t3)
    have y4: "synced s4"
      using y3 by (simp add: s4 synced_fold_serve)
    have gen: "calculateScanPath requests sh dir w = win s4"
      unfolding calculateScanPath_def Let_def S_def [symmetric] L_def [symmetric]
        R_def [symmetric] s1_def [symmetric] s2_def [symmetric]
      using False by (simp add: s4_def s3_def)
    have stats: "statsScan D (new_Set requests) sh dir = sh + last (0 # R)"
    proof -
      have "statsScan D (new_Set requests) sh dir =
          (let t1 = (if L \<noteq> [] then \<bar>hd L - sh\<bar> else 0);
               h1 = (if L \<noteq> [] then hd L else sh);
               t2 = t1 + \<bar>0 - h1\<bar>
           in if R \<noteq> [] then t2 + \<bar>last R - 0\<bar> else t2)"
        unfolding statsScan_def Let_def S_def [symmetric] L_def [symmetric] R_def [symmetric]
        using False by simp
      also have "\<dots> = sh + last (0 # R)"
      proof -
        have low: "L \<noteq> [] \<Longrightarrow> 0 \<le> hd L \<and> hd L < sh"
          using sd(4) by (simp add: hd_in_set)
        have up: "R \<noteq> [] \<Longrightarrow> 0 \<le> last R"
          using sd(5) by (simp add: last_in_set)
        show ?thesis
          unfolding Let_def using low up head by (cases "L = []"; cases "R = []") simp_all
      qed
      finally show ?thesis .
    qed
    from gen y4 t4 stats show ?thesis by auto
  qed
qed

lemma calculateCScanPath_total:
  fixes requests :: "int list"
  assumes range: "set requests \<subseteq> {0..D}" and head: "0 \<le> sh" "sh \<le> D"
    and disk: "DISK_MAX w = D" and start: "synced (startWalk sh w)"
    and side: "dir = ''right'' \<or> sh \<notin> set requests"
  shows "\<exists>s. calculateCScanPath requests sh dir w = win s \<and> synced s \<and>
           totalSeek s = statsCScan D (new_Set requests) sh dir"
proof -
  define S where "S = sort (new_Set requests)"
  define L where "L = filter (\<lambda>r. r < sh) S"
  define R where "R = filter (\<lambda>r. r \<ge> sh) S"
  define A where "A = filter (\<lambda>r. r \<noteq> sh) R"
  define s1 where "s1 = (if sh \<in> set S then serveAtStart sh (startWalk sh w) else startWalk sh w)"
  note sd = sides [OF range, of sh, folded S_def, folded L_def R_def, folded A_def]
  have s1: "totalSeek s1 = 0" "currentHead s1 = sh" "synced s1" "DISK_MAX (win s1) = D"
    using start disk by (simp_all add: s1_def serveAtStart_sel startWalk_sel synced_serveAtStart)
  show ?thesis
  proof (cases "dir = ''right''")
    case True
    define s2 where "s2 = fold (serveUnless sh) R s1"
    define s3 where "s3 = (if currentHead s2 \<noteq> D then sweepTo D s2 else s2)"
    define s4 where "s4 = jumpTo 0 s3"
    define s5 where "s5 = fold serve L s4"
    have s2: "s2 = fold serve A s1"
      by (simp add: s2_def A_def fold_serveUnless)
    have h2: "currentHead s2 = last (sh # A)"
      by (simp add: s2 currentHead_fold_serve s1)
    have "\<forall>x\<in>set A. sh \<le> x" using sd(6) by auto
    with sd(3) have "pathLen sh A = last (sh # A) - sh" by (rule pathLen_up)
    then have t2: "totalSeek s2 = last (sh # A) - sh"
      by (simp add: s2 totalSeek_fold_serve s1)
    have d2: "DISK_MAX (win s2) = D"
      by (simp add: s2 DISK_MAX_fold_serve s1)
    have le2: "last (sh # A) \<le> D"
      using sd(6) head by (cases "A = []") (simp_all add: last_in_set)
    have t3: "totalSeek s3 = D - sh"
      using le2 by (simp add: s3_def sweepTo_sel t2 h2)
    have d3: "DISK_MAX (win s3) = D"
      by (simp add: s3_def sweepTo_sel d2)
    have t4: "totalSeek s4 = D - sh + D" "currentHead s4 = 0"
      by (simp_all add: s4_def jumpTo_sel t3 d3)
    have "\<forall>x\<in>set L. 0 \<le> x" using sd(4) by auto
    with sd(1) have "pathLen 0 L = last (0 # L) - 0" by (rule pathLen_up)
    then have t5: "totalSeek s5 = D - sh + D + last (0 # L)"
      by (simp add: s5_def totalSeek_fold_serve t4)
    have y5: "synced s5"
      by (simp add: s5_def s4_def synced_fold_serve synced_jumpTo)
    have gen: "calculateCScanPath requests sh dir w = win s5"
      unfolding calculateCScanPath_def Let_def S_def [symmetric] L_def [symmetric]
        R_def [symmetric] s1_def [symmetric] s2_def [symmetric]
      using True d2 by (simp add: s5_def s4_def s3_def)
    have stats: "statsCScan D (new_Set requests) sh dir = D - sh + D + last (0 # L)"
    proof -
      have "statsCScan D (new_Set requests) sh dir =
          (let t1 = (if R \<noteq> [] then \<bar>last R - sh\<bar> else 0);
               h1 = (if R \<noteq> [] then last R else sh);
               t2 = t1 + \<bar>D - h1\<bar>;
               t3 = t2 + D
           in if L \<noteq> [] then t3 + \<bar>last L - 0\<bar> else t3)"
        unfolding statsCScan_def Let_def S_def [symmetric] L_def [symmetric] R_def [symmetric]
        using True by simp
      also have "\<dots> = D - sh + D + last (0 # L)"
      proof -
        have up: "sh \<le> last (sh # A)"
          using sd(6) by (cases "A = []") (simp_all add: last_in_set less_imp_le)
        have endR: "(if R \<noteq> [] then last R else sh) = last (sh # A)"
          using sd(7,8) by (cases "R = []") simp_all
        have t1: "(if R \<noteq> [] then \<bar>last R - sh\<bar> else 0) = last (sh # A) - sh"
          using sd(7,8) up by (cases "R = []") simp_all
        have low: "L \<noteq> [] \<Longrightarrow> 0 \<le> last L"
          using sd(4) by (simp add: last_in_set)
        show ?thesis
          unfolding Let_def t1 endR using le2 up low by (cases "L = []") simp_all
      qed
      finally show ?thesis .
    qed
    from gen y5 t5 stats show ?thesis by auto
  next
    case False
    with side have fresh: "sh \<notin> set requests" by simp
    with sd(9) have AR: "A = R" by simp
    define s2 where "s2 = fold serve (rev L) s1"
    define s3 where "s3 = (if currentHead s2 \<noteq> 0 then sweepTo 0 s2 else s2)"
    define s4 where "s4 = jumpTo D s3"
    define s5 where "s5 = fold (serveUnless sh) (rev R) s4"
    have "filter (\<lambda>r. r \<noteq> sh) (rev R) = rev R"
      using AR by (simp add: A_def rev_filter [symmetric])
    then have s5: "s5 = fold serve (rev R) s4"
      by (simp add: s5_def fold_serveUnless)
    have h2: "currentHead s2 = hd (L @ [sh])"
      by (cases "L = []") (simp_all add: s2_def currentHead_fold_serve s1 last_rev)
    have "\<forall>x\<in>set L. x \<le> sh" using sd(4) by auto
    with sd(1) have "pathLen sh (rev L) = sh - hd (L @ [sh])" by (rule pathLen_down)
    then have t2: "totalSeek s2 = sh - hd (L @ [sh])"
      by (simp add: s2_def totalSeek_fold_serve s1)
    have ge2: "0 \<le> hd (L @ [sh])"
      using sd(4) head by (cases "L = []") (simp_all add: hd_in_set)
    have t3: "totalSeek s3 = sh"
      using ge2 by (simp add: s3_def sweepTo_sel t2 h2)
    have d3: "DISK_MAX (win s3) = D"
      by (simp add: s3_def sweepTo_sel s2_def DISK_MAX_fold_serve s1)
    have t4: "totalSeek s4 = sh + D" "currentHead s4 = D"
      by (simp_all add: s4_def jumpTo_sel t3 d3)
    have "\<forall>x\<in>set R. x \<le> D" using sd(5) by auto
    with sd(2) have "pathLen D (rev R) = D - hd (R @ [D])" by (rule pathLen_down)
    then have t5: "totalSeek s5 = sh + D + (D - hd (R @ [D]))"
      by (simp add: s5 totalSeek_fold_serve t4)
    have y5: "synced s5"
      by (simp add: s5 s4_def synced_fold_serve synced_jumpTo)
    have gen: "calculateCScanPath requests sh dir w = win s5"
      unfolding calculateCScanPath_def Let_def S_def [symmetric] L_def [symmetric]
        R_def [symmetric] s1_def [symmetric] s2_def [symmetric]
      using False d3 by (simp add: s5_def s4_def s3_def)
    have stats: "statsCScan D (new_Set requests) sh dir = sh + D + (D - hd (R @ [D]))"
    proof -
      have "statsCScan D (new_Set requests) sh dir =
          (let t1 = (if L \<noteq> [] then \<bar>hd L - sh\<bar> else 0);
               h1 = (if L \<noteq> [] then hd L else sh);
               t2 = t1 + \<bar>0 - h1\<bar>;
               t3 = t2 + D
           in if R \<noteq> [] then t3 + \<bar>hd R - D\<bar> else t3)"
        unfolding statsCScan_def Let_def S_def [symmetric] L_def [symmetric] R_def [symmetric]
        using False by simp
      also have "\<dots> = sh + D + (D - hd (R @ [D]))"
      proof -
        have low: "L \<noteq> [] \<Longrightarrow> 0 \<le> hd L \<and> hd L < sh"
          using sd(4) by (simp add: hd_in_set)
        have up: "R \<noteq> [] \<Longrightarrow> hd R \<le> D"
          using sd(5) by (simp add: hd_in_set)
        show ?thesis
          unfolding Let_def using low up head by (cases "L = []"; cases "R = []") simp_all
      qed
      finally show ?thesis .
    qed
    from gen y5 t5 stats show ?thesis by auto
  qed
qed

lemma calculateLookPath_total:
  fixes requests :: "int list"
  assumes range: "set requests \<subseteq> {0..D}" and head: "0 \<le> sh" "sh \<le> D"
    and start: "synced (startWalk sh w)"
    and side: "dir = ''right'' \<or> sh \<notin> set requests"
  shows "\<exists>s. calculateLookPath requests sh dir w = win s \<and> synced s \<and>
           totalSeek s = statsLook (new_Set requests) sh dir"
proof -
  define S where "S = sort (new_Set requests)"
  define L where "L = filter (\<lambda>r. r < sh) S"
  define R where "R = filter (\<lambda>r. r \<ge> sh) S"
  define A where "A = filter (\<lambda>r. r \<noteq> sh) R"
  define s1 where "s1 = (if sh \<in> set S then serveAtStart sh (startWalk sh w) else startWalk sh w)"
  note sd = sides [OF range, of sh, folded S_def, folded L_def R_def, folded A_def]
  have s1: "totalSeek s1 = 0" "currentHead s1 = sh" "synced s1"
    using start by (simp_all add: s1_def serveAtStart_sel startWalk_sel synced_serveAtStart)
  show ?thesis
  proof (cases "dir = ''right''")
    case True
    define s2 where "s2 = fold (serveUnless sh) R s1"
    define s3 where "s3 = fold serve (rev L) s2"
    have s2: "s2 = fold serve A s1"
      by (simp add: s2_def A_def fold_serveUnless)
    have h2: "currentHead s2 = last (sh # A)"
      by (simp add: s2 currentHead_fold_serve s1)
    have up: "sh \<le> last (sh # A)"
      using sd(6) by (cases "A = []") (simp_all add: last_in_set less_imp_le)
    have "\<forall>x\<in>set A. sh \<le> x" using sd(6) by auto
    with sd(3) have "pathLen sh A = last (sh # A) - sh" by (rule pathLen_up)
    then have t2: "totalSeek s2 = last (sh # A) - sh"
      by (simp add: s2 totalSeek_fold_serve s1)
    have "\<forall>x\<in>set L. x \<le> last (sh # A)" using sd(4) up by auto
    with sd(1) have "pathLen (last (sh # A)) (rev L) = last (sh # A) - hd (L @ [last (sh # A)])"
      by (rule pathLen_down)
    then have t3: "totalSeek s3 = last (sh # A) - sh + (last (sh # A) - hd (L @ [last (sh # A)]))"
      by (simp add: s3_def totalSeek_fold_serve t2 h2)
    have y3: "synced s3"
      using s1(3) by (simp add: s3_def s2 synced_fold_serve)
    have gen: "calculateLookPath requests sh dir w = win s3"
      unfolding calculateLookPath_def Let_def S_def [symmetric] L_def [symmetric]
        R_def [symmetric] s1_def [symmetric] s2_def [symmetric]
      using True by (simp add: s3_def)
    have stats: "statsLook (new_Set requests) sh dir
        = last (sh # A) - sh + (last (sh # A) - hd (L @ [last (sh # A)]))"
    proof -
      have "statsLook (new_Set requests) sh dir =
          (let t1 = (if R \<noteq> [] then \<bar>last R - sh\<bar> else 0);
               h1 = (if R \<noteq> [] then last R else sh)
           in if L \<noteq> [] then t1 + \<bar>hd L - h1\<bar> else t1)"
        unfolding statsLook_def Let_def S_def [symmetric] L_def [symmetric] R_def [symmetric]
        using True by simp
      also have "\<dots> = last (sh # A) - sh + (last (sh # A) - hd (L @ [last (sh # A)]))"
      proof -
        have endR: "(if R \<noteq> [] then last R else sh) = last (sh # A)"
          using sd(7,8) by (cases "R = []") simp_all
        have t1: "(if R \<noteq> [] then \<bar>last R - sh\<bar> else 0) = last (sh # A) - sh"
          using sd(7,8) up by (cases "R = []") simp_all
        have low: "L \<noteq> [] \<Longrightarrow> hd L < sh"
          using sd(4) by (simp add: hd_in_set)
        show ?thesis
          unfolding Let_def t1 endR using up low by (cases "L = []") auto
      qed
      finally show ?thesis .
    qed
    from gen y3 t3 stats show ?thesis by auto
  next
    case False
    with side have fresh: "sh \<notin> set requests" by simp
    with sd(9) have AR: "A = R" by simp
    define s2 where "s2 = fold serve (rev L) s1"
    define s3 where "s3 = fold (serveUnless sh) R s2"
    have s3: "s3 = fold serve R s2"
      using AR by (simp add: s3_def fold_serveUnless A_def)
    have h2: "currentHead s2 = hd (L @ [sh])"
      by (cases "L = []") (simp_all add: s2_def currentHead_fold_serve s1 last_rev)
    have le2: "hd (L @ [sh]) \<le> sh"
      using sd(4) by (cases "L = []") (simp_all add: hd_in_set less_imp_le)
    have "\<forall>x\<in>set L. x \<le> sh" using sd(4) by auto
    with sd(1) have "pathLen sh (rev L) = sh - hd (L @ [sh])" by (rule pathLen_down)
    then have t2: "totalSeek s2 = sh - hd (L @ [sh])"
      by (simp add: s2_def totalSeek_fold_serve s1)
    have "\<forall>x\<in>set R. hd (L @ [sh]) \<le> x" using sd(5) le2 by auto
    with sd(2) have "pathLen (hd (L @ [sh])) R = last (hd (L @ [sh]) # R) - hd (L @ [sh])"
      by (rule pathLen_up)
    then have t3: "totalSeek s3 = sh - hd (L @ [sh]) + (last (hd (L @ [sh]) # R) - hd (L @ [sh]))"
      by (simp add: s3 totalSeek_fold_serve t2 h2)
    have y3: "synced s3"
      using s1(3) by (simp add: s3 s2_def synced_fold_serve)
    have gen: "calculateLookPath requests sh dir w = win s3"
      unfolding calculateLookPath_def Let_def S_def [symmetric] L_def [symmetric]
        R_def [symmetric] s1_def [symmetric] s2_def [symmetric]
      using False by (simp add: s3_def)
    have stats: "statsLook (new_Set requests) sh dir
        = sh - hd (L @ [sh]) + (last (hd (L @ [sh]) # R) - hd (L @ [sh]))"
    proof -
      have "statsLook (new_Set requests) sh dir =
          (let t1 = (if L \<noteq> [] then \<bar>hd L - sh\<bar> else 0);
               h1 = (if L \<noteq> [] then hd L else sh)
           in if R \<noteq> [] then t1 + \<bar>last R - h1\<bar> else t1)"
        unfolding statsLook_def Let_def S_def [symmetric] L_def [symmetric] R_def [symmetric]
        using False by simp
      also have "\<dots> = sh - hd (L @ [sh]) + (last (hd (L @ [sh]) # R) - hd (L @ [sh]))"
      proof -
        have low: "L \<noteq> [] \<Longrightarrow> hd L < sh"
          using sd(4) by (simp add: hd_in_set)
        have up: "R \<noteq> [] \<Longrightarrow> sh \<le> last R"
          using sd(5) by (simp add: last_in_set)
        show ?thesis
          unfolding Let_def using low up by (cases "L = []"; cases "R = []") auto
      qed
      finally show ?thesis .
    qed
    from gen y3 t3 stats show ?thesis by auto
  qed
qed

lemma pathLen_jump_up:
  assumes "sorted xs" "xs \<noteq> []"
  shows "pathLen c xs = \<bar>hd xs - c\<bar> + (last xs - hd xs)"
proof -
  from assms(2) obtain x rest where xs: "xs = x # rest" by (cases xs) auto
  with assms(1) have "sorted rest" "\<forall>y\<in>set rest. x \<le> y" by simp_all
  then have "pathLen x rest = last (x # rest) - x" by (rule pathLen_up)
  then show ?thesis by (simp add: xs)
qed

lemma pathLen_jump_down:
  assumes "sorted xs" "xs \<noteq> []"
  shows "pathLen c (rev xs) = \<bar>last xs - c\<bar> + (last xs - hd xs)"
proof -
  from assms(2) have xs: "xs = butlast xs @ [last xs]" by simp
  then have "rev xs = rev (butlast xs @ [last xs])" by simp
  then have revxs: "rev xs = last xs # rev (butlast xs)" by simp
  from assms(1) have "sorted (butlast xs)" by (rule sorted_butlast)
  moreover have "\<forall>y\<in>set (butlast xs). y \<le> last xs"
    using assms(1) by (auto dest: in_set_butlastD intro: sorted_le_last)
  ultimately have "pathLen (last xs) (rev (butlast xs)) = last xs - hd (butlast xs @ [last xs])"
    by (rule pathLen_down)
  with xs have "pathLen (last xs) (rev (butlast xs)) = last xs - hd xs" by simp
  then show ?thesis by (simp add: revxs)
qed

lemma calculateCLookPath_total:
  fixes requests :: "int list"
  assumes range: "set requests \<subseteq> {0..D}" and head: "0 \<le> sh" "sh \<le> D"
    and start: "synced (startWalk sh w)"
    and side: "dir = ''right'' \<or> sh \<notin> set requests"
  shows "\<exists>s. calculateCLookPath requests sh dir w = win s \<and> synced s \<and>
           totalSeek s = statsCLook (new_Set requests) sh dir"
proof -
  define S where "S = sort (new_Set requests)"
  define L where "L = filter (\<lambda>r. r < sh) S"
  define R where "R = filter (\<lambda>r. r \<ge> sh) S"
  define A where "A = filter (\<lambda>r. r \<noteq> sh) R"
  define s1 where "s1 = (if sh \<in> set S then serveAtStart sh (startWalk sh w) else startWalk sh w)"
  note sd = sides [OF range, of sh, folded S_def, folded L_def R_def, folded A_def]
  have s1: "totalSeek s1 = 0" "currentHead s1 = sh" "synced s1"
    using start by (simp_all add: s1_def serveAtStart_sel startWalk_sel synced_serveAtStart)
  show ?thesis
  proof (cases "dir = ''right''")
    case True
    define s2 where "s2 = fold (serveUnless sh) R s1"
    define s3 where "s3 = fold serve L s2"
    have s2: "s2 = fold serve A s1"
      by (simp add: s2_def A_def fold_serveUnless)
    have h2: "currentHead s2 = last (sh # A)"
      by (simp add: s2 currentHead_fold_serve s1)
    have up: "sh \<le> last (sh # A)"
      using sd(6) by (cases "A = []") (simp_all add: last_in_set less_imp_le)
    have "\<forall>x\<in>set A. sh \<le> x" using sd(6) by auto
    with sd(3) have "pathLen sh A = last (sh # A) - sh" by (rule pathLen_up)
    then have t2: "totalSeek s2 = last (sh # A) - sh"
      by (simp add: s2 totalSeek_fold_serve s1)
    have t3: "totalSeek s3 = last (sh # A) - sh + pathLen (last (sh # A)) L"
      by (simp add: s3_def totalSeek_fold_serve t2 h2)
    have y3: "synced s3"
      using s1(3) by (simp add: s3_def s2 synced_fold_serve)
    have "(case L of [] \<Rightarrow> s2 | firstReq # others \<Rightarrow> fold serve others (serve firstReq s2)) = s3"
      by (cases L) (simp_all add: s3_def)
    then have gen: "calculateCLookPath requests sh dir w = win s3"
      unfolding calculateCLookPath_def Let_def S_def [symmetric] L_def [symmetric]
        R_def [symmetric] s1_def [symmetric] s2_def [symmetric]
      using True by simp
    have stats: "statsCLook (new_Set requests) sh dir
        = last (sh # A) - sh + pathLen (last (sh # A)) L"
    proof -
      have "statsCLook (new_Set requests) sh dir =
          (let t1 = (if R \<noteq> [] then \<bar>last R - sh\<bar> else 0);
               h1 = (if R \<noteq> [] then last R else sh)
           in if L \<noteq> [] then t1 + \<bar>hd L - h1\<bar> + \<bar>last L - hd L\<bar> else t1)"
        unfolding statsCLook_def Let_def S_def [symmetric] L_def [symmetric] R_def [symmetric]
        using True by simp
      also have "\<dots> = last (sh # A) - sh + pathLen (last (sh # A)) L"
      proof -
        have endR: "(if R \<noteq> [] then last R else sh) = last (sh # A)"
          using sd(7,8) by (cases "R = []") simp_all
        have t1: "(if R \<noteq> [] then \<bar>last R - sh\<bar> else 0) = last (sh # A) - sh"
          using sd(7,8) up by (cases "R = []") simp_all
        show ?thesis
        proof (cases "L = []")
          case True
          then show ?thesis unfolding Let_def t1 endR by simp
        next
          case False
          with sd(1) have "hd L \<le> last L" by (intro sorted_le_last) simp_all
          with False show ?thesis
            unfolding Let_def t1 endR by (simp add: pathLen_jump_up [OF sd(1) False])
        qed
      qed
      finally show ?thesis .
    qed
    from gen y3 t3 stats show ?thesis by auto
  next
    case False
    with side have fresh: "sh \<notin> set requests" by simp
    with sd(9) have AR: "A = R" by simp
    define s2 where "s2 = fold serve (rev L) s1"
    define s3 where "s3 = fold serve (rev R) s2"
    have h2: "currentHead s2 = hd (L @ [sh])"
      by (cases "L = []") (simp_all add: s2_def currentHead_fold_serve s1 last_rev)
    have "\<forall>x\<in>set L. x \<le> sh" using sd(4) by auto
    with sd(1) have "pathLen sh (rev L) = sh - hd (L @ [sh])" by (rule pathLen_down)
    then have t2: "totalSeek s2 = sh - hd (L @ [sh])"
      by (simp add: s2_def totalSeek_fold_serve s1)
    have t3: "totalSeek s3 = sh - hd (L @ [sh]) + pathLen (hd (L @ [sh])) (rev R)"
      by (simp add: s3_def totalSeek_fold_serve t2 h2)
    have y3: "synced s3"
      using s1(3) by (simp add: s3_def s2_def synced_fold_serve)
    have walk: "(if length R > 0
        then fold (serveUnless sh) (rev (butlast R)) (jumpToLast sh (last R) s2) else s2) = s3"
    proof (cases "R = []")
      case True
      then show ?thesis by (simp add: s3_def)
    next
      case nonempty: False
      from fresh have noR: "\<forall>x\<in>set R. x \<noteq> sh"
        by (auto simp: R_def S_def set_new_Set)
      with nonempty have "last R \<noteq> sh" by (simp add: last_in_set)
      then have jump: "jumpToLast sh (last R) s2 = serve (last R) s2"
        by (simp add: jumpToLast_def serve_def Let_def)
      from noR have "\<forall>x\<in>set (rev (butlast R)). x \<noteq> sh"
        by (auto dest: in_set_butlastD)
      then have keep: "filter (\<lambda>r. r \<noteq> sh) (rev (butlast R)) = rev (butlast R)"
        by (rule filter_True)
      from nonempty have "rev R = rev (butlast R @ [last R])" by simp
      then have revR: "rev R = last R # rev (butlast R)" by simp
      from nonempty show ?thesis
        by (simp add: s3_def revR jump fold_serveUnless keep)
    qed
    have gen: "calculateCLookPath requests sh dir w = win s3"
      unfolding calculateCLookPath_def Let_def S_def [symmetric] L_def [symmetric]
        R_def [symmetric] s1_def [symmetric] s2_def [symmetric]
      using False walk by simp
    have stats: "statsCLook (new_Set requests) sh dir
        = sh - hd (L @ [sh]) + pathLen (hd (L @ [sh])) (rev R)"
    proof -
      have "statsCLook (new_Set requests) sh dir =
          (let t1 = (if L \<noteq> [] then \<bar>hd L - sh\<bar> else 0);
               h1 = (if L \<noteq> [] then hd L else sh)
           in if R \<noteq> [] then t1 + \<bar>last R - h1\<bar> + \<bar>hd R - last R\<bar> else t1)"
        unfolding statsCLook_def Let_def S_def [symmetric] L_def [symmetric] R_def [symmetric]
        using False by simp
      also have "\<dots> = sh - hd (L @ [sh]) + pathLen (hd (L @ [sh])) (rev R)"
      proof -
        have low: "L \<noteq> [] \<Longrightarrow> hd L < sh"
          using sd(4) by (simp add: hd_in_set)
        show ?thesis
        proof (cases "R = []")
          case True
          with low show ?thesis unfolding Let_def by (cases "L = []") auto
        next
          case nonempty: False
          with sd(2) have "hd R \<le> last R" by (intro sorted_le_last) simp_all
          with nonempty low show ?thesis
            unfolding Let_def
            by (cases "L = []") (auto simp: pathLen_jump_down [OF sd(2) nonempty])
        qed
      qed
      finally show ?thesis .
    qed
    from gen y3 t3 stats show ?thesis by auto
  qed
qed

lemma statsFcfs_fold:
  "fst (fold (\<lambda>req (t, h). (t + \<bar>req - h\<bar>, req)) xs (t0, h0)) = t0 + pathLen h0 xs"
  by (induction xs arbitrary: t0 h0) simp_all

lemma calculateFcfsPath_total:
  assumes "set requests \<subseteq> set (originalRequestSet w)" and start: "synced (startWalk sh w)"
  shows "\<exists>s. calculateFcfsPath requests sh w = win s \<and> synced s \<and>
           totalSeek s = statsFcfs requests sh"
proof -
  define s1 where "s1 = fold serve requests (startWalk sh w)"
  have "calculateFcfsPath requests sh w = win s1"
    using assms(1) by (simp add: calculateFcfsPath_def s1_def fold_fcfsVisit_serve startWalk_sel)
  moreover have "synced s1"
    using start by (simp add: s1_def synced_fold_serve)
  moreover have "totalSeek s1 = statsFcfs requests sh"
    by (simp add: s1_def totalSeek_fold_serve startWalk_sel statsFcfs_def statsFcfs_fold)
  ultimately show ?thesis by blast
qed

lemma sstf_loops_agree:
  "totalSeek (sstfPathLoop remaining s) = statsSstfLoop remaining (currentHead s) (totalSeek s) \<and>
   (synced s \<longrightarrow> synced (sstfPathLoop remaining s))"
proof (induction "length remaining" arbitrary: remaining s rule: less_induct)
  case less
  show ?case
  proof (cases "remaining = []")
    case True
    then show ?thesis by (simp add: sstfPathLoop_Nil statsSstfLoop_Nil)
  next
    case False
    from sstfPathLoop_step [OF False, of s] obtain n where
      mem: "n \<in> set remaining" and
      found: "nearestScan (currentHead s) remaining (None, - 1) = (Some \<bar>n - currentHead s\<bar>, n)" and
      gen: "sstfPathLoop remaining s = sstfPathLoop (set_delete n remaining) (serve n s)"
      by blast
    from statsSstfLoop_step [OF False, of "currentHead s" "totalSeek s"] obtain m where
      found': "nearestScan (currentHead s) remaining (None, - 1) = (Some \<bar>m - currentHead s\<bar>, m)" and
      stats: "statsSstfLoop remaining (currentHead s) (totalSeek s)
          = statsSstfLoop (set_delete m remaining) m (totalSeek s + \<bar>m - currentHead s\<bar>)"
      by blast
    from found found' have same: "m = n" by simp
    have shorter: "length (set_delete n remaining) < length remaining"
      using mem by (simp add: set_delete_def length_removeAll_less)
    from less.hyps [OF shorter, of "serve n s"] gen stats same show ?thesis
      by (simp add: serve_sel synced_serve)
  qed
qed

lemma calculateSstfPath_total:
  assumes start: "synced (startWalk sh w)"
  shows "\<exists>s. calculateSstfPath requests sh w = win s \<and> synced s \<and>
           totalSeek s = statsSstf (new_Set requests) sh"
proof -
  define rem0 where "rem0 = new_Set requests"
  define s0 where "s0 = (if sh \<in> set rem0 then serveAtStart sh (startWalk sh w) else startWalk sh w)"
  define rem1 where "rem1 = (if sh \<in> set rem0 then set_delete sh rem0 else rem0)"
  define s1 where "s1 = sstfPathLoop rem1 s0"
  have s0: "totalSeek s0 = 0" "currentHead s0 = sh" "synced s0"
    using start by (simp_all add: s0_def serveAtStart_sel startWalk_sel synced_serveAtStart)
  have "calculateSstfPath requests sh w = win s1"
    by (simp add: calculateSstfPath_def Let_def set_has_def s1_def s0_def rem1_def rem0_def)
  moreover have "synced s1"
    using sstf_loops_agree [of rem1 s0] s0(3) by (simp add: s1_def)
  moreover have "statsSstf (new_Set requests) sh = statsSstfLoop rem1 sh 0"
    by (simp add: statsSstf_def Let_def set_has_def new_Set_idem rem1_def rem0_def)
  then have "totalSeek s1 = statsSstf (new_Set requests) sh"
    using sstf_loops_agree [of rem1 s0] s0 by (simp add: s1_def)
  ultimately show ?thesis by blast
qed

section \<open>The history generator against the stats calculator\<close>

text \<open>
  Where the two components agree: for every algorithm token, every request list with
  values in 0..DISK_MAX and every startHead in that range, on a disk whose DISK_MAX is not
  0, the cumulative seek of the last step of the run is the total of the stats calculator
  whenever the algorithm is FCFS or SSTF, or the direction is right, or startHead is not
  one of the requests.
\<close>

lemma generator_agrees_with_stats:
  fixes requests :: "int list"
  assumes range: "set requests \<subseteq> {0..DISK_MAX w}" and head: "0 \<le> sh" "sh \<le> DISK_MAX w"
    and disk: "DISK_MAX w \<noteq> 0"
    and side: "algorithm = ''fcfs'' \<or> algorithm = ''sstf'' \<or> dir = ''right'' \<or> sh \<notin> set requests"
  shows "seek (last (simulationRun algorithm requests sh dir w))
           = getAlgorithmStats algorithm requests sh dir w"
proof -
  define ors where "ors = (if algorithm = ''fcfs'' then new_Set requests
                     else new_Set (sort (new_Set requests)))"
  define w3 where "w3 = addHistoryStep sh 0 [] []
      (w\<lparr>history := [], currentStateIndex := 0, originalRequestSet := ors\<rparr>)"
  define w4 where "w4 =
     (if algorithm = ''fcfs'' then calculateFcfsPath requests sh w3
      else if algorithm = ''sstf'' then calculateSstfPath requests sh w3
      else if algorithm = ''scan'' then calculateScanPath requests sh dir w3
      else if algorithm = ''c-scan'' then calculateCScanPath requests sh dir w3
      else if algorithm = ''look'' then calculateLookPath requests sh dir w3
      else if algorithm = ''c-look'' then calculateCLookPath requests sh dir w3
      else w3)"
  let ?D = "DISK_MAX w"
  have start: "synced (startWalk sh w3)"
    by (simp add: synced_def startWalk_sel w3_def addHistoryStep_def)
  have disk3: "DISK_MAX w3 = ?D"
    by (simp add: w3_def addHistoryStep_def)
  have ors: "algorithm = ''fcfs'' \<Longrightarrow> set requests \<subseteq> set (originalRequestSet w3)"
    by (simp add: w3_def ors_def addHistoryStep_def set_new_Set)
  have "\<exists>s. w4 = win s \<and> synced s \<and>
      totalSeek s = getAlgorithmStats algorithm requests sh dir w"
  proof (cases rule: algorithm_cases [of algorithm])
    case 1
    from calculateFcfsPath_total [OF ors [OF 1] start] 1 show ?thesis
      by (simp add: w4_def getAlgorithmStats_def)
  next
    case 2
    from calculateSstfPath_total [OF start, of requests] 2 show ?thesis
      by (simp add: w4_def getAlgorithmStats_def)
  next
    case 3
    with side have "dir = ''right'' \<or> sh \<notin> set requests" by simp
    from calculateScanPath_total [OF range head disk3 start this] 3 disk show ?thesis
      by (simp add: w4_def getAlgorithmStats_def)
  next
    case 4
    with side have "dir = ''right'' \<or> sh \<notin> set requests" by simp
    from calculateCScanPath_total [OF range head disk3 start this] 4 disk show ?thesis
      by (simp add: w4_def getAlgorithmStats_def)
  next
    case 5
    with side have "dir = ''right'' \<or> sh \<notin> set requests" by simp
    from calculateLookPath_total [OF range head start this] 5 show ?thesis
      by (simp add: w4_def getAlgorithmStats_def)
  next
    case 6
    with side have "dir = ''right'' \<or> sh \<notin> set requests" by simp
    from calculateCLookPath_total [OF range head start this] 6 show ?thesis
      by (simp add: w4_def getAlgorithmStats_def)
  next
    case 7
    then have "w4 = win (startWalk sh w3)" "getAlgorithmStats algorithm requests sh dir w = 0"
      by (simp_all add: w4_def startWalk_sel getAlgorithmStats_def)
    moreover have "totalSeek (startWalk sh w3) = 0" by (simp add: startWalk_sel)
    ultimately show ?thesis using start by metis
  qed
  then obtain s where s: "w4 = win s" "synced s"
    "totalSeek s = getAlgorithmStats algorithm requests sh dir w" by blast
  from s(1,2) have nonempty: "0 < length (history w4)" by (simp add: synced_def)
  have "simulationRun algorithm requests sh dir w = history w4 @ [last (history w4)]"
    unfolding simulationRun_def calculateSimulationHistory_def Let_def
    unfolding ors_def [symmetric] w3_def [symmetric] w4_def [symmetric]
    using nonempty by simp
  with s show ?thesis by (simp add: synced_def)
qed

lemma generator_agrees_with_stats_example:
  "seek (last (simulationRun ''c-scan'' [10, 50, 100] 50 ''right'' (initialWindow 199)))
     = getAlgorithmStats ''c-scan'' [10, 50, 100] 50 ''right'' (initialWindow 199) \<and>
   seek (last (simulationRun ''c-look'' [10, 50, 100] 60 ''left'' (initialWindow 199)))
     = getAlgorithmStats ''c-look'' [10, 50, 100] 60 ''left'' (initialWindow 199)"
proof -
  have range: "set [10, 50, 100] \<subseteq> {0..DISK_MAX (initialWindow 199)}"
    and disk: "DISK_MAX (initialWindow 199) \<noteq> 0"
    and at50: "(0::int) \<le> 50" "50 \<le> DISK_MAX (initialWindow 199)"
    and at60: "(0::int) \<le> 60" "60 \<le> DISK_MAX (initialWindow 199)"
    by (simp_all add: initialWindow_def)
  have right: "''c-scan'' = ''fcfs'' \<or> ''c-scan'' = ''sstf'' \<or> ''right'' = ''right''
      \<or> (50::int) \<notin> set [10, 50, 100]"
    by simp
  have fresh: "''c-look'' = ''fcfs'' \<or> ''c-look'' = ''sstf'' \<or> ''left'' = ''right''
      \<or> (60::int) \<notin> set [10, 50, 100]"
    by simp
  from generator_agrees_with_stats [OF range at50 disk right]
    generator_agrees_with_stats [OF range at60 disk fresh]
  show ?thesis by (rule conjI)
qed

text \<open>
  C1 fails on the code when startHead is itself a request and the direction is left. For
  the requests 10, 50, 100 from head 50 on a disk of 199, C-SCAN to the left ends its run at
  cumulative seek 348 while the stats calculator returns 398, and C-LOOK ends at 130
  against 180; for the requests 10, 50 from head 50, SCAN ends at 50 against 100 and LOOK
  at 40 against 80. The generator leaves the request at the start position out of the
  later sweep; the stats calculator travels to it once more.
\<close>

theorem C1_totals_differ_when_start_is_requested:
  "seek (last (simulationRun ''c-scan'' [10, 50, 100] 50 ''left'' (initialWindow 199))) = 348 \<and>
   getAlgorithmStats ''c-scan'' [10, 50, 100] 50 ''left'' (initialWindow 199) = 398 \<and>
   seek (last (simulationRun ''c-look'' [10, 50, 100] 50 ''left'' (initialWindow 199))) = 130 \<and>
   getAlgorithmStats ''c-look'' [10, 50, 100] 50 ''left'' (initialWindow 199) = 180 \<and>
   seek (last (simulationRun ''scan'' [10, 50] 50 ''left'' (initialWindow 199))) = 50 \<and>
   getAlgorithmStats ''scan'' [10, 50] 50 ''left'' (initialWindow 199) = 100 \<and>
   seek (last (simulationRun ''look'' [10, 50] 50 ''left'' (initialWindow 199))) = 40 \<and>
   getAlgorithmStats ''look'' [10, 50] 50 ''left'' (initialWindow 199) = 80"
  by (simp add: engine_defs)

section \<open>FCFS and repeated requests\<close>

text \<open>
  C2, as the spec states it, fails: for the requests 5, 10, 5 from start 0 the last step of
  the FCFS run lists 5 twice in servedOrder.
\<close>

theorem C2_fcfs_repeat_listed_again:
  "\<not> distinct (servedOrder (last (simulationRun ''fcfs'' [5, 10, 5] 0 ''right'' (initialWindow 199))))"
  by (simp add: engine_defs)

text \<open>
  C2, amended: for every request list, with or without repeated values, the step of the
  FCFS run after the visit of request number k has that request as its head, the
  cumulative seek of the step before plus the distance from the head of the step before,
  as servedOrder the first k + 1 requests as they were given, repeats included, and as
  servedSet their values, each once.
\<close>

theorem C2_fcfs_every_visit_charged_and_listed:
  fixes requests :: "int list" and startHead :: int and direction :: string and w :: window
  assumes "k < length requests"
  defines "run \<equiv> simulationRun ''fcfs'' requests startHead direction w"
  shows "head (run ! Suc k) = requests ! k \<and>
         seek (run ! Suc k) = seek (run ! k) + \<bar>requests ! k - head (run ! k)\<bar> \<and>
         servedOrder (run ! Suc k) = take (Suc k) requests \<and>
         served (run ! Suc k) = new_Set (take (Suc k) requests)"
proof -
  from simulationRun_fcfs [of startHead requests direction w] obtain s0 where
    h0: "hist s0 = [\<lparr>head = startHead, seek = 0, served = [], servedOrder = []\<rparr>]" and
    s0: "currentHead s0 = startHead" "totalSeek s0 = 0" "servedSet s0 = []" "servedSeq s0 = []" and
    run: "run = hist (fold serve requests s0) @ [last (hist (fold serve requests s0))]"
    unfolding run_def by blast
  define sk where "sk = fold serve (take k requests) s0"
  let ?h = "hist (fold serve requests s0)"
  have len: "length ?h = Suc (length requests)"
    by (simp add: length_hist_fold_serve h0)
  have "synced s0" by (simp add: synced_def h0 s0)
  then have sync: "synced sk" by (simp add: sk_def synced_fold_serve)
  have lenk: "length (hist sk) = Suc k"
    using assms(1) by (simp add: sk_def length_hist_fold_serve h0)
  from hist_fold_serve_nth [OF assms(1), of s0] h0
  have later: "?h ! Suc k = \<lparr>head = requests ! k,
        seek = totalSeek sk + \<bar>requests ! k - currentHead sk\<bar>,
        served = fold set_add (take (Suc k) requests) (servedSet s0),
        servedOrder = servedSeq s0 @ take (Suc k) requests\<rparr>"
    and before: "take (Suc k) ?h = hist sk"
    by (simp_all add: sk_def)
  have "?h ! k = take (Suc k) ?h ! k" by simp
  also have "\<dots> = last (hist sk)"
  proof -
    from lenk have "hist sk \<noteq> []" by auto
    with lenk show ?thesis by (simp add: before last_conv_nth)
  qed
  finally have earlier: "?h ! k = last (hist sk)" .
  have "run ! Suc k = ?h ! Suc k" "run ! k = ?h ! k"
    using assms(1) len by (simp_all add: run nth_append)
  with later earlier sync show ?thesis
    by (simp add: synced_def s0 new_Set_def)
qed

text \<open>The third visit of the requests 5, 10, 5 from start 0.\<close>

theorem C2_fcfs_every_visit_charged_and_listed_witness:
  "head (simulationRun ''fcfs'' [5, 10, 5] 0 ''right'' (initialWindow 199) ! Suc 2) = [5, 10, 5] ! 2 \<and>
   seek (simulationRun ''fcfs'' [5, 10, 5] 0 ''right'' (initialWindow 199) ! Suc 2) =
     seek (simulationRun ''fcfs'' [5, 10, 5] 0 ''right'' (initialWindow 199) ! 2) +
     \<bar>[5, 10, 5] ! 2 - head (simulationRun ''fcfs'' [5, 10, 5] 0 ''right'' (initialWindow 199) ! 2)\<bar> \<and>
   servedOrder (simulationRun ''fcfs'' [5, 10, 5] 0 ''right'' (initialWindow 199) ! Suc 2) = [5, 10, 5] \<and>
   served (simulationRun ''fcfs'' [5, 10, 5] 0 ''right'' (initialWindow 199) ! Suc 2) = [5, 10]"
proof -
  have k: "2 < length [5, 10, 5 :: int]" by simp
  have order: "take (Suc 2) [5, 10, 5 :: int] = [5, 10, 5]" by simp
  have once: "new_Set [5, 10, 5 :: int] = [5, 10]"
    by (simp add: new_Set_def set_add_def)
  from C2_fcfs_every_visit_charged_and_listed [OF k, of 0 "''right''" "initialWindow 199"]
  show ?thesis unfolding order once .
qed

section \<open>The invariants of a run\<close>

text \<open>
  C3, as the spec states it, fails: on the well-formed FCFS input with requests 7, 7 and
  start 3 the second request appends 7 to servedOrder again, so servedOrder has a duplicate
  entry while servedSet holds 7 once.
\<close>

theorem C3_fcfs_repeat_breaks_distinctness:
  "set [7, 7] \<subseteq> {0..DISK_MAX (initialWindow 199)} \<and>
   \<not> distinct (servedOrder (simulationRun ''fcfs'' [7, 7] 3 ''right'' (initialWindow 199) ! 2)) \<and>
   served (simulationRun ''fcfs'' [7, 7] 3 ''right'' (initialWindow 199) ! 2) = [7]"
  by (simp add: engine_defs)

text \<open>
  C3, amended: for every algorithm token, every request list with values in 0..DISK_MAX
  and every startHead in that range, along the generated run cumulativeSeek never falls
  and servedSet only grows from one step to the next, every step's servedSet holds the
  values of its servedOrder, each once, in first-served order, and every head lies in
  0..DISK_MAX. For every algorithm but FCFS, and for FCFS when no request value repeats,
  servedOrder has no duplicate entry and lists servedSet as it is.
\<close>

theorem C3_run_invariants:
  fixes algorithm direction :: string and requests :: "int list" and startHead :: int
    and w :: window
  assumes "0 \<le> startHead" "startHead \<le> DISK_MAX w" "set requests \<subseteq> {0..DISK_MAX w}"
  defines "run \<equiv> simulationRun algorithm requests startHead direction w"
  shows "(\<forall>i. Suc i < length run \<longrightarrow>
            seek (run ! i) \<le> seek (run ! Suc i) \<and>
            set (served (run ! i)) \<subseteq> set (served (run ! Suc i))) \<and>
         (\<forall>i<length run.
            served (run ! i) = new_Set (servedOrder (run ! i)) \<and>
            0 \<le> head (run ! i) \<and> head (run ! i) \<le> DISK_MAX w \<and>
            (algorithm \<noteq> ''fcfs'' \<or> distinct requests \<longrightarrow>
               distinct (servedOrder (run ! i)) \<and> served (run ! i) = servedOrder (run ! i)))"
proof -
  from simulationRun_walk [OF assms(1-3), of algorithm direction]
  obtain s where run: "run = hist s @ [last (hist s)]"
    and inv: "walk_inv (DISK_MAX w) s"
    and dist: "algorithm \<noteq> ''fcfs'' \<or> distinct requests \<longrightarrow> distinct (servedSeq s)"
    unfolding run_def by blast
  from inv have nonempty: "hist s \<noteq> []"
    and sorted: "sorted_wrt step_rel (hist s)"
    and each: "\<forall>x\<in>set (hist s). seek x \<le> totalSeek s \<and> prefix (servedOrder x) (servedSeq s) \<and>
          served x = new_Set (servedOrder x) \<and> 0 \<le> head x \<and> head x \<le> DISK_MAX w"
    by (simp_all add: walk_inv_def)
  have members: "set run = set (hist s)"
    using nonempty by (auto simp: run)
  have "\<forall>x\<in>set (hist s). step_rel x (last (hist s))"
  proof
    fix x assume x: "x \<in> set (hist s)"
    from nonempty have split: "hist s = butlast (hist s) @ [last (hist s)]" by simp
    with sorted have "\<forall>y\<in>set (butlast (hist s)). step_rel y (last (hist s))"
      by (metis sorted_wrt_append list.set_intros(1))
    moreover from x split have "x \<in> set (butlast (hist s)) \<or> x = last (hist s)"
      by (metis Un_iff insert_iff list.set(2) set_append empty_iff list.set(1))
    ultimately show "step_rel x (last (hist s))"
      by (auto simp: step_rel_refl)
  qed
  with sorted have chain: "sorted_wrt step_rel run"
    by (simp add: run sorted_wrt_append)
  have step: "served x = new_Set (servedOrder x) \<and> 0 \<le> head x \<and> head x \<le> DISK_MAX w \<and>
      (algorithm \<noteq> ''fcfs'' \<or> distinct requests \<longrightarrow>
         distinct (servedOrder x) \<and> served x = servedOrder x)" if "x \<in> set run" for x
  proof -
    from that members each have x: "prefix (servedOrder x) (servedSeq s)"
      "served x = new_Set (servedOrder x)" "0 \<le> head x" "head x \<le> DISK_MAX w"
      by auto
    have "distinct (servedOrder x) \<and> served x = servedOrder x"
      if "algorithm \<noteq> ''fcfs'' \<or> distinct requests"
    proof -
      from that dist have "distinct (servedSeq s)" by simp
      with x(1) have "distinct (servedOrder x)"
        by (auto simp: prefix_def)
      with x(2) show ?thesis by (simp add: new_Set_distinct)
    qed
    with x show ?thesis by simp
  qed
  have pair: "seek (run ! i) \<le> seek (run ! Suc i) \<and>
      set (served (run ! i)) \<subseteq> set (served (run ! Suc i))" if "Suc i < length run" for i
  proof -
    from chain that have rel: "step_rel (run ! i) (run ! Suc i)"
      by (simp add: sorted_wrt_nth_less)
    from that have "run ! i \<in> set run" "run ! Suc i \<in> set run" by simp_all
    with step have "served (run ! i) = new_Set (servedOrder (run ! i))"
      "served (run ! Suc i) = new_Set (servedOrder (run ! Suc i))" by blast+
    with rel show ?thesis
      by (simp add: step_rel_def new_Set_prefix)
  qed
  have all_steps: "\<forall>i<length run.
            served (run ! i) = new_Set (servedOrder (run ! i)) \<and>
            0 \<le> head (run ! i) \<and> head (run ! i) \<le> DISK_MAX w \<and>
            (algorithm \<noteq> ''fcfs'' \<or> distinct requests \<longrightarrow>
               distinct (servedOrder (run ! i)) \<and> served (run ! i) = servedOrder (run ! i))"
  proof (intro allI impI)
    fix i assume "i < length run"
    then have "run ! i \<in> set run" by simp
    from step [OF this] show "served (run ! i) = new_Set (servedOrder (run ! i)) \<and>
            0 \<le> head (run ! i) \<and> head (run ! i) \<le> DISK_MAX w \<and>
            (algorithm \<noteq> ''fcfs'' \<or> distinct requests \<longrightarrow>
               distinct (servedOrder (run ! i)) \<and> served (run ! i) = servedOrder (run ! i))" .
  qed
  have all_pairs: "\<forall>i. Suc i < length run \<longrightarrow>
            seek (run ! i) \<le> seek (run ! Suc i) \<and>
            set (served (run ! i)) \<subseteq> set (served (run ! Suc i))"
    using pair by blast
  from all_pairs all_steps show ?thesis by (rule conjI)
qed

text \<open>The invariants at the fourth and fifth step of a C-LOOK run to the left.\<close>

theorem C3_run_invariants_witness:
  "seek (simulationRun ''c-look'' [98, 183, 37, 122, 14, 124, 65, 67] 53 ''left'' (initialWindow 199) ! 3)
     \<le> seek (simulationRun ''c-look'' [98, 183, 37, 122, 14, 124, 65, 67] 53 ''left'' (initialWindow 199) ! Suc 3) \<and>
   set (served (simulationRun ''c-look'' [98, 183, 37, 122, 14, 124, 65, 67] 53 ''left'' (initialWindow 199) ! 3))
     \<subseteq> set (served (simulationRun ''c-look'' [98, 183, 37, 122, 14, 124, 65, 67] 53 ''left'' (initialWindow 199) ! Suc 3)) \<and>
   distinct (servedOrder (simulationRun ''c-look'' [98, 183, 37, 122, 14, 124, 65, 67] 53 ''left'' (initialWindow 199) ! 3)) \<and>
   head (simulationRun ''c-look'' [98, 183, 37, 122, 14, 124, 65, 67] 53 ''left'' (initialWindow 199) ! 3)
     \<le> DISK_MAX (initialWindow 199)"
proof -
  let ?run = "simulationRun ''c-look'' [98, 183, 37, 122, 14, 124, 65, 67] 53 ''left'' (initialWindow 199)"
  have a: "(0::int) \<le> 53" by simp
  have b: "53 \<le> DISK_MAX (initialWindow 199)" by (simp add: initialWindow_def)
  have c: "set [98, 183, 37, 122, 14, 124, 65, 67] \<subseteq> {0..DISK_MAX (initialWindow 199)}"
    by (simp add: initialWindow_def)
  have len: "length ?run = 10" by (simp add: engine_defs)
  note main = C3_run_invariants [OF a b c, of "''c-look''" "''left''"]
  from main have pairs: "\<forall>i. Suc i < length ?run \<longrightarrow>
            seek (?run ! i) \<le> seek (?run ! Suc i) \<and>
            set (served (?run ! i)) \<subseteq> set (served (?run ! Suc i))"
    by (rule conjunct1)
  from main have steps: "\<forall>i<length ?run.
            served (?run ! i) = new_Set (servedOrder (?run ! i)) \<and>
            0 \<le> head (?run ! i) \<and> head (?run ! i) \<le> DISK_MAX (initialWindow 199) \<and>
            (''c-look'' \<noteq> ''fcfs'' \<or> distinct [98, 183, 37, 122, 14, 124, 65, 67 :: int] \<longrightarrow>
               distinct (servedOrder (?run ! i)) \<and> served (?run ! i) = servedOrder (?run ! i))"
    by (rule conjunct2)
  have "Suc 3 < length ?run" "3 < length ?run" by (simp_all add: len)
  with pairs steps show ?thesis by blast
qed

section \<open>The shape of a run\<close>

text \<open>
  C4: for every algorithm token and every input, the run that calculateSimulationHistory
  leaves has at least two steps, begins with the step at startHead with cumulative seek 0
  and nothing served, and its last step is the step before it once more: the closing step
  adds no seek cost.
\<close>

theorem C4_first_step_and_sentinel:
  "2 \<le> length (simulationRun algorithm requests startHead direction w) \<and>
   simulationRun algorithm requests startHead direction w ! 0
     = \<lparr>head = startHead, seek = 0, served = [], servedOrder = []\<rparr> \<and>
   last (simulationRun algorithm requests startHead direction w)
     = simulationRun algorithm requests startHead direction w
         ! (length (simulationRun algorithm requests startHead direction w) - 2)"
proof -
  let ?first = "\<lparr>head = startHead, seek = 0, served = [], servedOrder = []\<rparr>"
  from simulationRun_shape [of algorithm requests startHead direction w]
  obtain body where run: "simulationRun algorithm requests startHead direction w
      = (?first # body) @ [last (?first # body)]"
    by blast
  have "((?first # body) @ [last (?first # body)]) ! (length ((?first # body) @ [last (?first # body)]) - 2)
      = (?first # body) ! length body"
    by (simp add: nth_append)
  also have "\<dots> = last (?first # body)"
    by (metis last_conv_nth length_Cons diff_Suc_1 list.distinct(1))
  finally show ?thesis
    by (simp add: run)
qed

section \<open>The worked scenarios\<close>

text \<open>
  C5, as the spec states it, fails: for the sorted requests 14, 37, 65, 67, 98, 122, 124, 183,
  start 53, direction left, SCAN on a disk of 199, neither the last step's cumulative seek
  nor the stats total is 382.
\<close>

theorem C5_scan_left_total_not_382:
  "seek (last (simulationRun ''scan'' [14, 37, 65, 67, 98, 122, 124, 183] 53 ''left''
      (initialWindow 199))) \<noteq> 382 \<and>
   getAlgorithmStats ''scan'' [14, 37, 65, 67, 98, 122, 124, 183] 53 ''left'' (initialWindow 199)
     \<noteq> 382"
  by (simp add: engine_defs)

text \<open>
  C5, amended: on that input the heads of the run are 53, 37, 14, 0, 65, 67, 98, 122, 124,
  183 and once more 183 for the closing copy of the last step, and the total seek, read
  from the last step and returned by the stats calculator, is 236.
\<close>

theorem C5_scan_left_scenario:
  "map head (simulationRun ''scan'' [14, 37, 65, 67, 98, 122, 124, 183] 53 ''left''
      (initialWindow 199)) = [53, 37, 14, 0, 65, 67, 98, 122, 124, 183, 183] \<and>
   seek (last (simulationRun ''scan'' [14, 37, 65, 67, 98, 122, 124, 183] 53 ''left''
      (initialWindow 199))) = 236 \<and>
   getAlgorithmStats ''scan'' [14, 37, 65, 67, 98, 122, 124, 183] 53 ''left'' (initialWindow 199)
     = 236"
  by (simp add: engine_defs)

text \<open>
  C6, as the spec states it, fails: for the requests 98, 183, 37, 122, 14, 124, 65, 67 and
  start 53 the SSTF total is not 319, in the run and in the stats calculator.
\<close>

theorem C6_sstf_total_not_319:
  "seek (last (simulationRun ''sstf'' [98, 183, 37, 122, 14, 124, 65, 67] 53 ''right''
      (initialWindow 199))) \<noteq> 319 \<and>
   getAlgorithmStats ''sstf'' [98, 183, 37, 122, 14, 124, 65, 67] 53 ''right'' (initialWindow 199)
     \<noteq> 319"
  by (simp add: engine_defs)

text \<open>
  C6, amended: on that input, whatever the direction and the earlier state of the globals,
  SSTF serves 65, 67, 37, 14, 98, 122, 124, 183 in this order and its total seek is 236, in
  the run and in the stats calculator.
\<close>

theorem C6_sstf_scenario:
  "servedOrder (last (simulationRun ''sstf'' [98, 183, 37, 122, 14, 124, 65, 67] 53 direction w))
     = [65, 67, 37, 14, 98, 122, 124, 183] \<and>
   seek (last (simulationRun ''sstf'' [98, 183, 37, 122, 14, 124, 65, 67] 53 direction w)) = 236 \<and>
   getAlgorithmStats ''sstf'' [98, 183, 37, 122, 14, 124, 65, 67] 53 direction w = 236"
  by (simp add: engine_defs)

text \<open>
  C7, as the spec states it, fails: for the requests 98, 183, 37, 122, 14, 124, 65, 67 and
  start 53 under FCFS, the values 45, 128, 146, 111, 76, 111, 67, 2 are neither the
  cumulative seeks of the eight steps that follow the start step nor the costs of these
  eight moves.
\<close>

theorem C7_fcfs_listed_values_differ:
  "map seek (butlast (tl (simulationRun ''fcfs'' [98, 183, 37, 122, 14, 124, 65, 67] 53 ''right''
      (initialWindow 199)))) \<noteq> [45, 128, 146, 111, 76, 111, 67, 2] \<and>
   map2 (\<lambda>a b. seek b - seek a)
     (simulationRun ''fcfs'' [98, 183, 37, 122, 14, 124, 65, 67] 53 ''right'' (initialWindow 199))
     (butlast (tl (simulationRun ''fcfs'' [98, 183, 37, 122, 14, 124, 65, 67] 53 ''right''
        (initialWindow 199)))) \<noteq> [45, 128, 146, 111, 76, 111, 67, 2]"
  by code_simp

text \<open>
  C7, amended: on that input the cumulative seeks after the eight moves are 45, 130, 276,
  361, 469, 579, 638, 640, the moves cost 45, 85, 146, 85, 108, 110, 59, 2, and the total
  seek is 640, in the run and in the stats calculator.
\<close>

theorem C7_fcfs_scenario:
  "map seek (butlast (tl (simulationRun ''fcfs'' [98, 183, 37, 122, 14, 124, 65, 67] 53 ''right''
      (initialWindow 199)))) = [45, 130, 276, 361, 469, 579, 638, 640] \<and>
   map2 (\<lambda>a b. seek b - seek a)
     (simulationRun ''fcfs'' [98, 183, 37, 122, 14, 124, 65, 67] 53 ''right'' (initialWindow 199))
     (butlast (tl (simulationRun ''fcfs'' [98, 183, 37, 122, 14, 124, 65, 67] 53 ''right''
        (initialWindow 199)))) = [45, 85, 146, 85, 108, 110, 59, 2] \<and>
   seek (last (simulationRun ''fcfs'' [98, 183, 37, 122, 14, 124, 65, 67] 53 ''right''
      (initialWindow 199))) = 640 \<and>
   getAlgorithmStats ''fcfs'' [98, 183, 37, 122, 14, 124, 65, 67] 53 ''right'' (initialWindow 199)
     = 640"
  by code_simp

section \<open>SCAN and LOOK on requests that reach both ends of the disk\<close>

text \<open>
  C8: when the smallest request is 0 and the greatest is DISK_MAX, for every startHead on
  the disk and every direction token, the SCAN total of the stats calculator equals its
  LOOK total, and the history generator produces the same run for SCAN as for LOOK, so the
  same final cumulative seek. DISK_MAX is not 0: the stats calculator reads the global as
  \<open>window.DISK_MAX || 199\<close>.
\<close>

theorem C8_scan_look_agree_at_boundaries:
  fixes requests :: "int list"
  assumes "requests \<noteq> []" "Min (set requests) = 0" "Max (set requests) = DISK_MAX w"
    and "0 \<le> startHead" "startHead \<le> DISK_MAX w" and "DISK_MAX w \<noteq> 0"
  shows "getAlgorithmStats ''scan'' requests startHead direction w
           = getAlgorithmStats ''look'' requests startHead direction w \<and>
         simulationRun ''scan'' requests startHead direction w
           = simulationRun ''look'' requests startHead direction w"
proof
  from statsScan_eq_statsLook [OF assms(1-5)] assms(6)
  show "getAlgorithmStats ''scan'' requests startHead direction w
           = getAlgorithmStats ''look'' requests startHead direction w"
    by (simp add: getAlgorithmStats_def)
next
  define w3 where "w3 = addHistoryStep startHead 0 [] []
      (w\<lparr>history := [], currentStateIndex := 0,
         originalRequestSet := new_Set (sort (new_Set requests))\<rparr>)"
  have disk: "DISK_MAX w3 = DISK_MAX w"
    by (simp add: w3_def addHistoryStep_def)
  have "calculateScanPath requests startHead direction w3
      = calculateLookPath requests startHead direction w3"
    using assms(1-5) by (intro calculateScanPath_eq_calculateLookPath) (simp_all add: disk)
  then show "simulationRun ''scan'' requests startHead direction w
           = simulationRun ''look'' requests startHead direction w"
    unfolding simulationRun_def calculateSimulationHistory_def Let_def
    by (simp add: w3_def [symmetric])
qed

text \<open>The requests 0, 60, 199 on a disk of 199, from head 53 to the left.\<close>

theorem C8_scan_look_agree_at_boundaries_witness:
  "Min (set [0, 60, 199]) = (0::int) \<and> Max (set [0, 60, 199]) = DISK_MAX (initialWindow 199) \<and>
   getAlgorithmStats ''scan'' [0, 60, 199] 53 ''left'' (initialWindow 199)
     = getAlgorithmStats ''look'' [0, 60, 199] 53 ''left'' (initialWindow 199) \<and>
   simulationRun ''scan'' [0, 60, 199] 53 ''left'' (initialWindow 199)
     = simulationRun ''look'' [0, 60, 199] 53 ''left'' (initialWindow 199)"
proof -
  have a: "[0, 60, 199 :: int] \<noteq> []" by simp
  have b: "Min (set [0, 60, 199]) = (0::int)" by simp
  have c: "Max (set [0, 60, 199]) = DISK_MAX (initialWindow 199)"
    by (simp add: initialWindow_def)
  have d: "(0::int) \<le> 53" by simp
  have e: "53 \<le> DISK_MAX (initialWindow 199)" by (simp add: initialWindow_def)
  have f: "DISK_MAX (initialWindow 199) \<noteq> 0" by (simp add: initialWindow_def)
  from b c C8_scan_look_agree_at_boundaries [OF a b c d e f, of "''left''"]
  show ?thesis by (intro conjI) simp_all
qed

section \<open>Inputs that break the preconditions\<close>

text \<open>
  C9, as the spec states it, fails: the engine returns normally on a violated precondition.
  For the unknown algorithm token fifo and an empty request list
  calculateSimulationHistory returns true and leaves the two-step run, and
  getAlgorithmStats returns 0; the same for FCFS on an empty list; and for LOOK with the
  request 500 beyond a disk of 199 and the unknown direction token up, a run is produced
  and a total returned.
\<close>

theorem C9_unknown_token_and_empty_list_return:
  "calculateSimulationHistory ''fifo'' [] 53 ''left'' (initialWindow 199) =
     (True, \<lparr>DISK_MAX = 199,
             history = [\<lparr>head = 53, seek = 0, served = [], servedOrder = []\<rparr>,
                        \<lparr>head = 53, seek = 0, served = [], servedOrder = []\<rparr>],
             currentStateIndex = 0, originalRequestSet = []\<rparr>) \<and>
   getAlgorithmStats ''fifo'' [] 53 ''left'' (initialWindow 199) = 0 \<and>
   length (simulationRun ''fcfs'' [] 53 ''left'' (initialWindow 199)) = 2 \<and>
   getAlgorithmStats ''fcfs'' [] 53 ''left'' (initialWindow 199) = 0 \<and>
   map head (simulationRun ''look'' [500] 53 ''up'' (initialWindow 199)) = [53, 500, 500] \<and>
   getAlgorithmStats ''look'' [500] 53 ''up'' (initialWindow 199) = 447"
  by (simp add: engine_defs)

text \<open>
  C9, amended: the engine validates nothing and rejects nothing. For every input
  calculateSimulationHistory returns true. For an algorithm token outside the six known
  ones it leaves the two-step run, the start step and its copy, and getAlgorithmStats
  returns 0, whatever the requests. For an empty request list the same holds under fcfs,
  sstf, look and c-look. A direction token other than right is handled as left, in both
  components.
\<close>

theorem C9_engine_never_rejects:
  fixes algorithm direction :: string and requests :: "int list" and startHead :: int
    and w :: window
  defines "first \<equiv> \<lparr>head = startHead, seek = 0, served = [], servedOrder = []\<rparr>"
  shows "fst (calculateSimulationHistory algorithm requests startHead direction w) = True \<and>
    (algorithm \<notin> {''fcfs'', ''sstf'', ''scan'', ''c-scan'', ''look'', ''c-look''} \<longrightarrow>
       simulationRun algorithm requests startHead direction w = [first, first] \<and>
       getAlgorithmStats algorithm requests startHead direction w = 0) \<and>
    (algorithm \<in> {''fcfs'', ''sstf'', ''look'', ''c-look''} \<longrightarrow>
       simulationRun algorithm [] startHead direction w = [first, first] \<and>
       getAlgorithmStats algorithm [] startHead direction w = 0) \<and>
    (direction \<noteq> ''right'' \<longrightarrow>
       simulationRun algorithm requests startHead direction w
         = simulationRun algorithm requests startHead ''left'' w \<and>
       getAlgorithmStats algorithm requests startHead direction w
         = getAlgorithmStats algorithm requests startHead ''left'' w)"
proof (intro conjI impI)
  show "fst (calculateSimulationHistory algorithm requests startHead direction w) = True"
    by (simp add: calculateSimulationHistory_def Let_def)
next
  assume "algorithm \<notin> {''fcfs'', ''sstf'', ''scan'', ''c-scan'', ''look'', ''c-look''}"
  then show "simulationRun algorithm requests startHead direction w = [first, first]"
    and "getAlgorithmStats algorithm requests startHead direction w = 0"
    by (simp_all add: simulationRun_def unknown_calculateSimulationHistory
        unknown_getAlgorithmStats first_def)
next
  assume "algorithm \<in> {''fcfs'', ''sstf'', ''look'', ''c-look''}"
  then show "simulationRun algorithm [] startHead direction w = [first, first]"
    and "getAlgorithmStats algorithm [] startHead direction w = 0"
    by (simp_all only: empty_simulationRun empty_getAlgorithmStats first_def)
next
  assume "direction \<noteq> ''right''"
  then show "simulationRun algorithm requests startHead direction w
         = simulationRun algorithm requests startHead ''left'' w"
    and "getAlgorithmStats algorithm requests startHead direction w
         = getAlgorithmStats algorithm requests startHead ''left'' w"
    by (simp_all add: simulationRun_def direction_calculateSimulationHistory [of direction]
        direction_getAlgorithmStats [of direction])
qed

text \<open>
  The unknown tokens fifo and up with a request beyond the disk, and SSTF on the empty list.
\<close>

theorem C9_engine_never_rejects_witness:
  "simulationRun ''fifo'' [500] 53 ''up'' (initialWindow 199) =
     [\<lparr>head = 53, seek = 0, served = [], servedOrder = []\<rparr>,
      \<lparr>head = 53, seek = 0, served = [], servedOrder = []\<rparr>] \<and>
   getAlgorithmStats ''fifo'' [500] 53 ''up'' (initialWindow 199) = 0 \<and>
   simulationRun ''sstf'' [] 53 ''up'' (initialWindow 199) =
     [\<lparr>head = 53, seek = 0, served = [], servedOrder = []\<rparr>,
      \<lparr>head = 53, seek = 0, served = [], servedOrder = []\<rparr>] \<and>
   getAlgorithmStats ''sstf'' [] 53 ''up'' (initialWindow 199) = 0 \<and>
   simulationRun ''fifo'' [500] 53 ''up'' (initialWindow 199)
     = simulationRun ''fifo'' [500] 53 ''left'' (initialWindow 199)"
proof -
  have unknown: "''fifo'' \<notin> {''fcfs'', ''sstf'', ''scan'', ''c-scan'', ''look'', ''c-look''}"
    by simp
  have known: "''sstf'' \<in> {''fcfs'', ''sstf'', ''look'', ''c-look''}"
    by simp
  have other: "''up'' \<noteq> ''right''"
    by simp
  note unknown_case = C9_engine_never_rejects [of "''fifo''" "[500]" 53 "''up''" "initialWindow 199"]
  note known_case = C9_engine_never_rejects [of "''sstf''" "[500]" 53 "''up''" "initialWindow 199"]
  note ab = unknown_case [THEN conjunct2, THEN conjunct1, THEN mp, OF unknown]
  note cc = unknown_case [THEN conjunct2, THEN conjunct2, THEN conjunct2, THEN mp, OF other]
  note de = known_case [THEN conjunct2, THEN conjunct2, THEN conjunct1, THEN mp, OF known]
  note a = ab [THEN conjunct1] and b = ab [THEN conjunct2] and c = cc [THEN conjunct1]
    and d = de [THEN conjunct1] and e = de [THEN conjunct2]
  from a b c d e show ?thesis by (intro conjI)
qed

section \<open>The tie-break of SSTF\<close>

text \<open>The step a turn of the SSTF loop of the history generator appends to the run.\<close>

lemma next_step_sstfPathLoop:
  assumes "sstfPathLoop remaining s = sstfPathLoop rest (serve n s)"
  shows "hist (sstfPathLoop remaining s) ! length (hist s) =
           \<lparr>head = n, seek = totalSeek s + \<bar>n - currentHead s\<bar>,
            served = set_add n (servedSet s), servedOrder = servedSeq s @ [n]\<rparr>"
proof -
  have "prefix (hist (serve n s)) (hist (sstfPathLoop rest (serve n s)))"
    by (rule grows_sstfPathLoop) simp
  then obtain more where "hist (sstfPathLoop rest (serve n s)) = hist (serve n s) @ more"
    by (auto simp: prefix_def)
  with assms show ?thesis
    by (simp add: serve_sel nth_append)
qed

text \<open>
  C10: SSTF is a function of its inputs, and among the remaining requests at the shortest
  distance from the head it takes the one that comes first in the iteration order of the
  remaining set. Whenever the remaining set is not empty it splits around the chosen
  request: every request before it is strictly farther from the head, every request after
  it is at least as far, so only a strictly smaller distance replaces a candidate. The
  loop of the history generator and the loop of the stats calculator both go on from that
  request, with it deleted, which keeps the order of the others; the stats calculator has
  added its distance to the total, and the next step of the run has it as head, appended
  to servedOrder, at the cumulative seek raised by its distance. On the empty set the
  generator's loop leaves the walk as it is and the loop of the stats calculator returns
  the total it has, so these equations fix the served order and the total of both; from
  the same head and total the two loops end at the same total. The iteration order of a
  set built from a list is the order of first occurrences: the first value of the list
  comes first and its later repeats are dropped. Both components start their loop from
  the set of the requests in this order, without the start position.
\<close>

theorem C10_sstf_first_nearest_in_set_order:
  assumes "remaining \<noteq> []"
  shows "(\<exists>n before after.
            remaining = before @ n # after \<and>
            (\<forall>y\<in>set before. \<bar>n - currentHead s\<bar> < \<bar>y - currentHead s\<bar>) \<and>
            (\<forall>y\<in>set after. \<bar>n - currentHead s\<bar> \<le> \<bar>y - currentHead s\<bar>) \<and>
            nearestScan (currentHead s) remaining (None, - 1) = (Some \<bar>n - currentHead s\<bar>, n) \<and>
            sstfPathLoop remaining s = sstfPathLoop (set_delete n remaining) (serve n s) \<and>
            statsSstfLoop remaining (currentHead s) t
              = statsSstfLoop (set_delete n remaining) n (t + \<bar>n - currentHead s\<bar>) \<and>
            set_delete n remaining = filter (\<lambda>y. y \<noteq> n) remaining \<and>
            hist (sstfPathLoop remaining s) ! length (hist s) =
              \<lparr>head = n, seek = totalSeek s + \<bar>n - currentHead s\<bar>,
               served = set_add n (servedSet s), servedOrder = servedSeq s @ [n]\<rparr>) \<and>
         sstfPathLoop [] s = s \<and>
         statsSstfLoop [] headCopy t = t \<and>
         totalSeek (sstfPathLoop remaining s)
           = statsSstfLoop remaining (currentHead s) (totalSeek s) \<and>
         new_Set [] = [] \<and>
         new_Set (x # requests) = x # filter (\<lambda>y. y \<noteq> x) (new_Set requests) \<and>
         calculateSstfPath requests startHead w =
           win (sstfPathLoop (filter (\<lambda>y. y \<noteq> startHead) (new_Set requests))
                 (if startHead \<in> set requests then serveAtStart startHead (startWalk startHead w)
                  else startWalk startHead w)) \<and>
         getAlgorithmStats ''sstf'' requests startHead direction w =
           statsSstfLoop (filter (\<lambda>y. y \<noteq> startHead) (new_Set requests)) startHead 0"
proof -
  let ?c = "currentHead s"
  from nearestScan_first_nearest [OF assms, of ?c "- 1"]
  obtain n before after where
    found: "nearestScan ?c remaining (None, - 1) = (Some \<bar>n - ?c\<bar>, n)"
    and split: "remaining = before @ n # after"
    and strict: "\<forall>y\<in>set before. \<bar>n - ?c\<bar> < \<bar>y - ?c\<bar>"
    and weak: "\<forall>y\<in>set after. \<bar>n - ?c\<bar> \<le> \<bar>y - ?c\<bar>"
    by blast
  from assms have len: "0 < length remaining" by simp
  have gen: "sstfPathLoop remaining s = sstfPathLoop (set_delete n remaining) (serve n s)"
    using len by (subst sstfPathLoop.simps) (simp add: found addDist_def serve_def Let_def)
  have stats: "statsSstfLoop remaining ?c t
      = statsSstfLoop (set_delete n remaining) n (t + \<bar>n - ?c\<bar>)"
    using len by (subst statsSstfLoop.simps) (simp add: found addDist_def Let_def)
  note next_step = next_step_sstfPathLoop [OF gen]
  from split strict weak found gen stats set_delete_filter [of n remaining] next_step
  have "\<exists>n before after.
            remaining = before @ n # after \<and>
            (\<forall>y\<in>set before. \<bar>n - ?c\<bar> < \<bar>y - ?c\<bar>) \<and>
            (\<forall>y\<in>set after. \<bar>n - ?c\<bar> \<le> \<bar>y - ?c\<bar>) \<and>
            nearestScan ?c remaining (None, - 1) = (Some \<bar>n - ?c\<bar>, n) \<and>
            sstfPathLoop remaining s = sstfPathLoop (set_delete n remaining) (serve n s) \<and>
            statsSstfLoop remaining ?c t
              = statsSstfLoop (set_delete n remaining) n (t + \<bar>n - ?c\<bar>) \<and>
            set_delete n remaining = filter (\<lambda>y. y \<noteq> n) remaining \<and>
            hist (sstfPathLoop remaining s) ! length (hist s) =
              \<lparr>head = n, seek = totalSeek s + \<bar>n - ?c\<bar>,
               served = set_add n (servedSet s), servedOrder = servedSeq s @ [n]\<rparr>"
    by blast
  moreover have "totalSeek (sstfPathLoop remaining s)
           = statsSstfLoop remaining ?c (totalSeek s)"
    using sstf_loops_agree [of remaining s] by (rule conjunct1)
  moreover have "calculateSstfPath requests startHead w =
           win (sstfPathLoop (filter (\<lambda>y. y \<noteq> startHead) (new_Set requests))
                 (if startHead \<in> set requests then serveAtStart startHead (startWalk startHead w)
                  else startWalk startHead w))"
    by (simp add: calculateSstfPath_def Let_def set_has_def set_new_Set set_delete_filter
        start_not_in_set)
  moreover have "getAlgorithmStats ''sstf'' requests startHead direction w =
           statsSstfLoop (filter (\<lambda>y. y \<noteq> startHead) (new_Set requests)) startHead 0"
    by (simp add: getAlgorithmStats_def statsSstf_def Let_def set_has_def set_new_Set
        new_Set_idem set_delete_filter start_not_in_set)
  ultimately show ?thesis
    by (simp add: new_Set_Nil new_Set_Cons sstfPathLoop_Nil statsSstfLoop_Nil)
qed

text \<open>
  The requests 60, 40, 0 from head 50: 60 and 40 are both 10 away and 60, first in the
  list, is served first, then 40, then 0. The equations above give the stats total
  10 + 20 + 40 = 70 and the served order 60, 40, 0, as the run has them. With 40 first
  in the list the order is 40, 60, 0 and the total 10 + 20 + 60 = 90.
\<close>

theorem C10_sstf_first_nearest_in_set_order_witness:
  "getAlgorithmStats ''sstf'' [60, 40, 0] 50 ''left'' (initialWindow 199) = 70 \<and>
   servedSeq (sstfPathLoop [60, 40, 0] (startWalk 50 (initialWindow 199))) = [60, 40, 0] \<and>
   servedOrder (last (simulationRun ''sstf'' [60, 40, 0] 50 ''left'' (initialWindow 199)))
     = [60, 40, 0] \<and>
   seek (last (simulationRun ''sstf'' [60, 40, 0] 50 ''left'' (initialWindow 199))) = 70 \<and>
   servedOrder (last (simulationRun ''sstf'' [40, 60, 0] 50 ''left'' (initialWindow 199)))
     = [40, 60, 0] \<and>
   getAlgorithmStats ''sstf'' [40, 60, 0] 50 ''left'' (initialWindow 199) = 90"
proof -
  define s0 where "s0 = startWalk 50 (initialWindow 199)"
  define s1 where "s1 = serve 60 s0"
  define s2 where "s2 = serve 40 s1"
  define s3 where "s3 = serve 0 s2"
  have at: "currentHead s0 = 50" "currentHead s1 = 60" "currentHead s2 = 40"
    by (simp_all add: s0_def s1_def s2_def startWalk_sel serve_sel)
  have ne3: "[60, 40, 0 :: int] \<noteq> []" and ne2: "[40, 0 :: int] \<noteq> []"
    and ne1: "[0 :: int] \<noteq> []"
    by simp_all
  \<comment> \<open>first choice: 60 and 40 are both 10 away from 50, and 60 comes first\<close>
  from C10_sstf_first_nearest_in_set_order [where s = s0 and t = 0, OF ne3, THEN conjunct1]
  obtain n before after where
    split: "[60, 40, 0] = before @ n # after"
    and strict: "\<forall>y\<in>set before. \<bar>n - 50\<bar> < \<bar>y - 50\<bar>"
    and gen: "sstfPathLoop [60, 40, 0] s0 = sstfPathLoop (set_delete n [60, 40, 0]) (serve n s0)"
    and stats: "statsSstfLoop [60, 40, 0] 50 0
        = statsSstfLoop (set_delete n [60, 40, 0]) n (0 + \<bar>n - 50\<bar>)"
    unfolding at by blast
  from split have "(before = [] \<and> n = 60) \<or> (before = [60] \<and> n = 40)
      \<or> (before = [60, 40] \<and> n = 0)"
    by (auto simp: Cons_eq_append_conv)
  with strict have "n = 60" by auto
  with gen stats have gen1: "sstfPathLoop [60, 40, 0] s0 = sstfPathLoop [40, 0] s1"
    and stats1: "statsSstfLoop [60, 40, 0] 50 0 = statsSstfLoop [40, 0] 60 10"
    by (simp_all add: set_delete_def s1_def)
  \<comment> \<open>second choice, from 60: 40 is 20 away, 0 is 60 away\<close>
  from C10_sstf_first_nearest_in_set_order [where s = s1 and t = 10, OF ne2, THEN conjunct1]
  obtain n before after where
    split: "[40, 0] = before @ n # after"
    and strict: "\<forall>y\<in>set before. \<bar>n - 60\<bar> < \<bar>y - 60\<bar>"
    and gen: "sstfPathLoop [40, 0] s1 = sstfPathLoop (set_delete n [40, 0]) (serve n s1)"
    and stats: "statsSstfLoop [40, 0] 60 10
        = statsSstfLoop (set_delete n [40, 0]) n (10 + \<bar>n - 60\<bar>)"
    unfolding at by blast
  from split have "(before = [] \<and> n = 40) \<or> (before = [40] \<and> n = 0)"
    by (auto simp: Cons_eq_append_conv)
  with strict have "n = 40" by auto
  with gen stats have gen2: "sstfPathLoop [40, 0] s1 = sstfPathLoop [0] s2"
    and stats2: "statsSstfLoop [40, 0] 60 10 = statsSstfLoop [0] 40 30"
    by (simp_all add: set_delete_def s2_def)
  \<comment> \<open>last choice, from 40: only 0 is left\<close>
  from C10_sstf_first_nearest_in_set_order [where s = s2 and t = 30, OF ne1, THEN conjunct1]
  obtain n before after where
    split: "[0] = before @ n # after"
    and gen: "sstfPathLoop [0] s2 = sstfPathLoop (set_delete n [0]) (serve n s2)"
    and stats: "statsSstfLoop [0] 40 30 = statsSstfLoop (set_delete n [0]) n (30 + \<bar>n - 40\<bar>)"
    unfolding at by blast
  from split have "n = 0"
    by (auto simp: Cons_eq_append_conv)
  with gen stats have gen3: "sstfPathLoop [0] s2 = sstfPathLoop [] s3"
    and stats3: "statsSstfLoop [0] 40 30 = statsSstfLoop [] 0 70"
    by (simp_all add: set_delete_def s3_def)
  \<comment> \<open>the loops end on the empty set\<close>
  note rest = C10_sstf_first_nearest_in_set_order [where s = s3 and t = 70 and headCopy = 0
      and requests = "[60, 40, 0]" and startHead = 50 and direction = "''left''"
      and w = "initialWindow 199", OF ne1, THEN conjunct2]
  note gen4 = rest [THEN conjunct1]
  note stats4 = rest [THEN conjunct2, THEN conjunct1]
  note entry = rest [THEN conjunct2, THEN conjunct2, THEN conjunct2, THEN conjunct2,
      THEN conjunct2, THEN conjunct2]
  have order: "new_Set [60, 40, 0] = [60, 40, 0]"
    by (simp add: new_Set_def set_add_def)
  have "getAlgorithmStats ''sstf'' [60, 40, 0] 50 ''left'' (initialWindow 199)
      = statsSstfLoop [60, 40, 0] 50 0"
    unfolding entry order by simp
  also have "\<dots> = 70"
    by (simp only: stats1 stats2 stats3 stats4)
  finally have total: "getAlgorithmStats ''sstf'' [60, 40, 0] 50 ''left'' (initialWindow 199) = 70" .
  have fresh: "servedSeq s0 = []"
    by (simp add: s0_def startWalk_sel)
  have "sstfPathLoop [60, 40, 0] s0 = s3"
    by (simp only: gen1 gen2 gen3 gen4)
  then have "servedSeq (sstfPathLoop [60, 40, 0] s0) = [60, 40, 0]"
    by (simp add: s3_def s2_def s1_def serve_sel fresh)
  then have served: "servedSeq (sstfPathLoop [60, 40, 0] (startWalk 50 (initialWindow 199)))
      = [60, 40, 0]"
    by (simp only: s0_def)
  have run: "servedOrder (last (simulationRun ''sstf'' [60, 40, 0] 50 ''left'' (initialWindow 199)))
       = [60, 40, 0]"
    "seek (last (simulationRun ''sstf'' [60, 40, 0] 50 ''left'' (initialWindow 199))) = 70"
    by (simp_all add: engine_defs)
  have other: "servedOrder (last (simulationRun ''sstf'' [40, 60, 0] 50 ''left'' (initialWindow 199)))
       = [40, 60, 0]"
    "getAlgorithmStats ''sstf'' [40, 60, 0] 50 ''left'' (initialWindow 199) = 90"
    by (simp_all add: engine_defs)
  from total served run other show ?thesis by (intro conjI)
qed

end
